theory Spec2Isabelle
  imports Main "HOL-Library.Sublist"
begin

section \<open>The mDNS client\<close>

text \<open>
  The class \<open>MulticastDnsMdnsClient\<close> exists twice in the repository
  (\<open>services/mdnsClient.ts\<close> and the \<open>mdnsProvider\<close> module); the bodies of
  \<open>onResponse\<close> and \<open>stop\<close> are the same in both.  In the first the bound type
  is a field \<open>string | undefined\<close> set by \<open>start(type)\<close>, in the second it is a
  constructor parameter; the field is modelled as an option, which covers both.

  Strings are lists of characters.  A JavaScript number that the code only ever treats
  as a count or a port is a \<open>nat\<close>; \<open>ttl\<close> is tested for truthiness, which for a
  number is \<open>\<noteq> 0\<close>.
\<close>

record MdnsService =
  address :: string
  fqdn :: string
  name :: string
  port :: nat
  "text" :: "string list"

text \<open>
  A resource record of the \<open>multicast-dns\<close> library is a union discriminated by its
  \<open>type\<close> tag; the payload \<open>data\<close> has the shape the tag announces.  Record types
  other than the four the client inspects are \<open>OtherData\<close>.
\<close>

datatype MdnsData =
    PTR string
  | SRV (target: string) (srv_port: nat)
  | TXT "string list"
  | A string
  | OtherData

record MdnsAnswer =
  answer_name :: string
  answer_ttl :: nat
  answer_data :: MdnsData

record MdnsPacket =
  answers :: "MdnsAnswer list"

definition isAddressAnswer :: "MdnsAnswer \<Rightarrow> bool" where
  "isAddressAnswer answer = (case answer_data answer of A _ \<Rightarrow> True | _ \<Rightarrow> False)"

definition isPointerAnswer :: "MdnsAnswer \<Rightarrow> bool" where
  "isPointerAnswer answer = (case answer_data answer of PTR _ \<Rightarrow> True | _ \<Rightarrow> False)"

definition isServerAnswer :: "MdnsAnswer \<Rightarrow> bool" where
  "isServerAnswer answer = (case answer_data answer of SRV _ _ \<Rightarrow> True | _ \<Rightarrow> False)"

definition isTextAnswer :: "MdnsAnswer \<Rightarrow> bool" where
  "isTextAnswer answer = (case answer_data answer of TXT _ \<Rightarrow> True | _ \<Rightarrow> False)"

text \<open>
  The registry \<open>knownServices\<close> is a JavaScript object created by the literal
  \<open>{}\<close> and used as a dictionary.  Its own properties are a map from names to
  records.  Reading \<open>knownServices[name]\<close> follows the prototype chain: for a name
  that is not an own property it yields the member of \<open>Object.prototype\<close> of that
  name when there is one, and \<open>undefined\<close> otherwise.  The members of
  \<open>Object.prototype\<close> are those of the language standard (with its annex on
  web-compatible features); each is a function or, for \<open>__proto__\<close>, the prototype
  object itself, so each is truthy.
\<close>

type_synonym registry = "string \<rightharpoonup> MdnsService"

definition objectPrototype :: "string list" where
  "objectPrototype =
     [''constructor'', ''hasOwnProperty'', ''isPrototypeOf'', ''propertyIsEnumerable'',
      ''toLocaleString'', ''toString'', ''valueOf'', ''__proto__'',
      ''__defineGetter__'', ''__defineSetter__'', ''__lookupGetter__'', ''__lookupSetter__'']"

text \<open>
  What a read of the registry finds: a record stored under the name, or the member
  of \<open>Object.prototype\<close> of that name.  \<open>None\<close> is \<open>undefined\<close>.
\<close>

datatype found = Own MdnsService | Inherited string

definition lookup :: "registry \<Rightarrow> string \<Rightarrow> found option" where
  "lookup known n =
     (case known n of
        Some service \<Rightarrow> Some (Own service)
      | None \<Rightarrow> if n \<in> set objectPrototype then Some (Inherited n) else None)"

text \<open>
  The two emitters are modelled by the list of events fired, in firing order.
  \<open>onServiceUp\<close> is fired with the record just built; \<open>onServiceDown\<close> is fired
  with whatever the read of the registry found.  \<open>listeners\<close> counts the
  registrations of \<open>onResponse\<close> on the socket.
\<close>

datatype event = ServiceUp MdnsService | ServiceDown found

record MdnsClient =
  type :: "string option"
  knownServices :: registry
  listeners :: nat

definition newClient :: "string option \<Rightarrow> MdnsClient" where
  "newClient t = \<lparr>type = t, knownServices = Map.empty, listeners = 0\<rparr>"

text \<open>\<open>stop\<close>: \<open>removeListener\<close> drops one registration if there is one.\<close>

definition stop :: "MdnsClient \<Rightarrow> MdnsClient" where
  "stop c = c\<lparr>listeners := listeners c - 1, knownServices := Map.empty\<rparr>"

text \<open>\<open>start\<close>, up to the query it sends (which does not touch the client's state).\<close>

definition start :: "MdnsClient \<Rightarrow> string \<Rightarrow> MdnsClient" where
  "start c t = (let c1 = stop c; c2 = c1\<lparr>type := Some t\<rparr> in c2\<lparr>listeners := listeners c2 + 1\<rparr>)"

subsection \<open>onResponse\<close>

definition blank :: "string \<Rightarrow> MdnsService" where
  "blank n = \<lparr>address = '''', fqdn = '''', name = n, port = 0, text = []\<rparr>"

text \<open>
  First loop: the body of \<open>forEach\<close> over the pointer answers owned by the bound type.
  The two arrays \<open>upServices\<close> and \<open>downServices\<close> are the accumulator.
\<close>

fun stagePointer :: "MdnsService list \<times> string list \<Rightarrow> MdnsAnswer \<Rightarrow> MdnsService list \<times> string list" where
  "stagePointer (upServices, downServices) answer =
     (case answer_data answer of
        PTR n \<Rightarrow>
          if answer_ttl answer \<noteq> 0 then (upServices @ [blank n], downServices)
          else (upServices, downServices @ [n])
      | _ \<Rightarrow> (upServices, downServices))"

definition staged :: "string option \<Rightarrow> MdnsAnswer list \<Rightarrow> MdnsService list \<times> string list" where
  "staged t as =
     foldl stagePointer ([], [])
       (filter isPointerAnswer (filter (\<lambda>answer. Some (answer_name answer) = t) as))"

text \<open>Second loop, per up-candidate: the three scans of the same packet.\<close>

definition setServer :: "MdnsService \<Rightarrow> MdnsAnswer \<Rightarrow> MdnsService" where
  "setServer service answer =
     (case answer_data answer of
        SRV tg p \<Rightarrow> service\<lparr>fqdn := tg, port := p\<rparr>
      | _ \<Rightarrow> service)"

definition setText :: "MdnsService \<Rightarrow> MdnsAnswer \<Rightarrow> MdnsService" where
  "setText service answer =
     (case answer_data answer of
        TXT d \<Rightarrow> service\<lparr>text := d\<rparr>
      | _ \<Rightarrow> service)"

definition setAddress :: "MdnsService \<Rightarrow> MdnsAnswer \<Rightarrow> MdnsService" where
  "setAddress service answer =
     (case answer_data answer of
        A d \<Rightarrow> service\<lparr>address := d\<rparr>
      | _ \<Rightarrow> service)"

definition resolveServer :: "MdnsAnswer list \<Rightarrow> MdnsService \<Rightarrow> MdnsService" where
  "resolveServer as service =
     foldl setServer service
       (filter isServerAnswer (filter (\<lambda>answer. answer_name answer = name service) as))"

definition resolveText :: "MdnsAnswer list \<Rightarrow> MdnsService \<Rightarrow> MdnsService" where
  "resolveText as service =
     foldl setText service
       (filter isTextAnswer (filter (\<lambda>answer. answer_name answer = name service) as))"

definition resolveAddress :: "MdnsAnswer list \<Rightarrow> MdnsService \<Rightarrow> MdnsService" where
  "resolveAddress as service =
     foldl setAddress service
       (filter isAddressAnswer (filter (\<lambda>answer. answer_name answer = fqdn service) as))"

text \<open>The three scans run one after the other on the same (mutable) candidate.\<close>

definition resolve :: "MdnsAnswer list \<Rightarrow> MdnsService \<Rightarrow> MdnsService" where
  "resolve as service = resolveAddress as (resolveText as (resolveServer as service))"

text \<open>
  The end of the body of the second loop: the guarded insertion.  A string is truthy
  when it is not empty; a read of the registry is truthy when it finds something.
  The assignment runs only for a name under which the read found nothing, which is
  then not a member of \<open>Object.prototype\<close>: it creates an own property.
\<close>

definition upService :: "MdnsAnswer list \<Rightarrow> registry \<Rightarrow> MdnsService \<Rightarrow> registry \<times> event list" where
  "upService as known candidate =
     (let service = resolve as candidate in
        if fqdn service \<noteq> '''' \<and> lookup known (name service) = None
        then (known(name service \<mapsto> service), [ServiceUp service])
        else (known, []))"

fun upLoop :: "MdnsAnswer list \<Rightarrow> registry \<Rightarrow> MdnsService list \<Rightarrow> registry \<times> event list" where
  "upLoop as known [] = (known, [])"
| "upLoop as known (candidate # rest) =
     (let (known1, fired1) = upService as known candidate;
          (known2, fired2) = upLoop as known1 rest
      in (known2, fired1 @ fired2))"

text \<open>
  Third loop: the down-candidates.  \<open>delete\<close> removes an own property and does
  nothing for a name that is only inherited.
\<close>

definition downService :: "registry \<Rightarrow> string \<Rightarrow> registry \<times> event list" where
  "downService known n =
     (case lookup known n of
        Some service \<Rightarrow> (known(n := None), [ServiceDown service])
      | None \<Rightarrow> (known, []))"

fun downLoop :: "registry \<Rightarrow> string list \<Rightarrow> registry \<times> event list" where
  "downLoop known [] = (known, [])"
| "downLoop known (n # rest) =
     (let (known1, fired1) = downService known n;
          (known2, fired2) = downLoop known1 rest
      in (known2, fired1 @ fired2))"

definition onResponse :: "MdnsClient \<Rightarrow> MdnsPacket \<Rightarrow> MdnsClient \<times> event list" where
  "onResponse c packet =
     (let (upServices, downServices) = staged (type c) (answers packet);
          (known1, fired1) = upLoop (answers packet) (knownServices c) upServices;
          (known2, fired2) = downLoop known1 downServices
      in (c\<lparr>knownServices := known2\<rparr>, fired1 @ fired2))"

text \<open>
  The life of a client: the socket calls \<open>onResponse\<close> once per registration of the
  listener for every packet that arrives, and the owner calls \<open>start\<close> and \<open>stop\<close>.
\<close>

fun deliverTimes :: "nat \<Rightarrow> MdnsClient \<Rightarrow> MdnsPacket \<Rightarrow> MdnsClient \<times> event list" where
  "deliverTimes 0 c packet = (c, [])"
| "deliverTimes (Suc k) c packet =
     (let (c1, fired1) = onResponse c packet;
          (c2, fired2) = deliverTimes k c1 packet
      in (c2, fired1 @ fired2))"

definition deliver :: "MdnsClient \<Rightarrow> MdnsPacket \<Rightarrow> MdnsClient \<times> event list" where
  "deliver c packet = deliverTimes (listeners c) c packet"

datatype clientOp = Arrives MdnsPacket | Start string | Stop

fun applyOp :: "MdnsClient \<Rightarrow> clientOp \<Rightarrow> MdnsClient" where
  "applyOp c (Arrives packet) = fst (deliver c packet)"
| "applyOp c (Start t) = start c t"
| "applyOp c Stop = stop c"

text \<open>The \<open>onServiceUp\<close> events that carry a record of a given name.\<close>

fun isUpOf :: "string \<Rightarrow> event \<Rightarrow> bool" where
  "isUpOf n (ServiceUp s) = (name s = n)"
| "isUpOf n (ServiceDown service) = False"

section \<open>Application descriptors\<close>

text \<open>
  \<open>httpPort\<close> is whatever \<open>parseInt\<close> returns: an integer or \<open>NaN\<close>.  The
  integers are unbounded here; a JavaScript number is exact up to \<open>2^53\<close>, far above
  any port.  \<open>pid\<close> is an optional field.
\<close>

datatype number = Num int | NaN

record DaprApplication =
  appId :: string
  httpPort :: number
  pid :: "int option"

subsection \<open>parseInt(string, 10)\<close>

text \<open>
  Leading white space is skipped, one sign is read, then the longest run of decimal
  digits; no digit at all gives \<open>NaN\<close>.  Characters are code units below 256, so the
  white space of the language is the six ASCII characters and the no-break space.
\<close>

definition isWhiteSpace :: "char \<Rightarrow> bool" where
  "isWhiteSpace c = (c \<in> set [CHR 0x09, CHR 0x0A, CHR 0x0B, CHR 0x0C, CHR 0x0D, CHR 0x20, CHR 0xA0])"

definition isDigit :: "char \<Rightarrow> bool" where
  "isDigit c = (c \<in> set ''0123456789'')"

definition digitValue :: "char \<Rightarrow> int" where
  "digitValue c = of_char c - 48"

definition decimal :: "string \<Rightarrow> int" where
  "decimal ds = foldl (\<lambda>n c. 10 * n + digitValue c) 0 ds"

definition signOf :: "string \<Rightarrow> int \<times> string" where
  "signOf s =
     (case s of
        [] \<Rightarrow> (1, s)
      | c # r \<Rightarrow> if c = CHR ''-'' then (- 1, r) else if c = CHR ''+'' then (1, r) else (1, s))"

definition parseInt :: "string \<Rightarrow> number" where
  "parseInt s =
     (let (sign, r) = signOf (dropWhile isWhiteSpace s);
          digits = takeWhile isDigit r
      in if digits = [] then NaN else Num (sign * decimal digits))"

section \<open>The mDNS-based application provider\<close>

text \<open>\<open>String.prototype.split\<close> with a one-character separator.\<close>

fun split :: "char \<Rightarrow> string \<Rightarrow> string list" where
  "split sep [] = [[]]"
| "split sep (c # cs) =
     (if c = sep then [] # split sep cs
      else (case split sep cs of
              p # ps \<Rightarrow> (c # p) # ps
            | [] \<Rightarrow> [[c]]))"

definition parsedText :: "string list \<Rightarrow> string list list" where
  "parsedText txt = filter (\<lambda>t. length t = 2) (map (split CHR ''='') txt)"

text \<open>\<open>parsedText.find(t => t[0] === key)?.[1]\<close>\<close>

definition findValue :: "string \<Rightarrow> string list list \<Rightarrow> string option" where
  "findValue key parsed =
     (case find (\<lambda>t. t ! 0 = key) parsed of
        Some t \<Rightarrow> Some (t ! 1)
      | None \<Rightarrow> None)"

text \<open>
  The static method \<open>MdnsBasedDaprApplicationProvider.toApplication\<close>.  The guard
  \<open>appId && httpPort\<close> asks for two strings that are defined and not empty.
\<close>

definition toApplicationMdns :: "MdnsService \<Rightarrow> DaprApplication option" where
  "toApplicationMdns service =
     (case findValue ''appId'' (parsedText (text service)) of
        None \<Rightarrow> None
      | Some a \<Rightarrow>
          (case findValue ''httpPort'' (parsedText (text service)) of
             None \<Rightarrow> None
           | Some p \<Rightarrow>
               if a \<noteq> '''' \<and> p \<noteq> ''''
               then Some \<lparr>appId = a, httpPort = parseInt p, pid = None\<rparr>
               else None))"

text \<open>\<open>Array.prototype.findIndex\<close>: the first index, or \<open>-1\<close>.\<close>

fun findIndex :: "('a \<Rightarrow> bool) \<Rightarrow> 'a list \<Rightarrow> int" where
  "findIndex P [] = - 1"
| "findIndex P (x # xs) =
     (if P x then 0 else if findIndex P xs = - 1 then - 1 else findIndex P xs + 1)"

text \<open>
  \<open>Array.prototype.splice(start)\<close> called with one argument: everything from the
  (normalised) start index to the end is deleted.
\<close>

definition splice :: "int \<Rightarrow> 'a list \<Rightarrow> 'a list" where
  "splice st xs =
     (if st < 0 then take (nat (max (int (length xs) + st) 0)) xs
      else take (nat (min st (int (length xs)))) xs)"

text \<open>
  The provider's state: its list, and the number of times \<open>onDidChangeEmitter.fire()\<close>
  has run.
\<close>

record MdnsBasedProvider =
  applications :: "DaprApplication list"
  changes :: nat

definition fire :: "MdnsBasedProvider \<Rightarrow> MdnsBasedProvider" where
  "fire p = p\<lparr>changes := changes p + 1\<rparr>"

text \<open>The listener registered on \<open>onServiceDown\<close>.\<close>

definition downListener :: "MdnsBasedProvider \<Rightarrow> MdnsService \<Rightarrow> MdnsBasedProvider" where
  "downListener p service =
     fire
       (case toApplicationMdns service of
          None \<Rightarrow> p
        | Some application \<Rightarrow>
            if findIndex (\<lambda>a. appId a = appId application) (applications p) \<noteq> - 1
            then fire (p\<lparr>applications :=
                          splice (findIndex (\<lambda>a. appId a = appId application) (applications p))
                            (applications p)\<rparr>)
            else p)"

text \<open>The listener registered on \<open>onServiceUp\<close>.\<close>

definition upListener :: "MdnsBasedProvider \<Rightarrow> MdnsService \<Rightarrow> MdnsBasedProvider" where
  "upListener p service =
     (case toApplicationMdns service of
        None \<Rightarrow> p
      | Some application \<Rightarrow>
          fire
            (if findIndex (\<lambda>a. appId a = appId application) (applications p) \<noteq> - 1
             then p\<lparr>applications :=
                      (applications p)
                        [nat (findIndex (\<lambda>a. appId a = appId application) (applications p)) := application]\<rparr>
             else p\<lparr>applications := applications p @ [application]\<rparr>))"

text \<open>What the claim about the down listener asks for: the one matched element goes.\<close>

definition removeAt :: "nat \<Rightarrow> 'a list \<Rightarrow> 'a list" where
  "removeAt i xs = take i xs @ drop (Suc i) xs"

section \<open>The process-based application provider\<close>

subsection \<open>The two regular expressions\<close>

text \<open>
  Both expressions have the shape \<open>FLAG "?(?<group>[class]+)"?\<close>, where \<open>FLAG\<close> ends
  in one space.  At a given position the match reads the flag, then the optional quote
  (greedy: with the quote first, without it on backtracking), then the longest
  non-empty run of the class; the closing \<open>"?\<close> always matches.  \<open>exec\<close> on a fresh
  expression returns the leftmost match.
\<close>

definition isAppIdChar :: "char \<Rightarrow> bool" where
  "isAppIdChar c =
     (c \<in> set ''abcdefghijklmnopqrstuvwxyzABCDEFGHIJKLMNOPQRSTUVWXYZ0123456789_-'')"

definition optionalQuote :: "string \<Rightarrow> string list" where
  "optionalQuote s =
     (case s of
        [] \<Rightarrow> [s]
      | c # r \<Rightarrow> if c = CHR 0x22 then [r, s] else [s])"

definition matchHere :: "string \<Rightarrow> (char \<Rightarrow> bool) \<Rightarrow> string \<Rightarrow> string option" where
  "matchHere flag cls s =
     (if prefix flag s
      then find (\<lambda>g. g \<noteq> []) (map (takeWhile cls) (optionalQuote (drop (length flag) s)))
      else None)"

fun exec :: "(string \<Rightarrow> string option) \<Rightarrow> string \<Rightarrow> string option" where
  "exec m [] = m []"
| "exec m (c # cs) = (case m (c # cs) of Some g \<Rightarrow> Some g | None \<Rightarrow> exec m cs)"

definition getAppId :: "string \<Rightarrow> string option" where
  "getAppId cmd = exec (matchHere ''--app-id '' isAppIdChar) cmd"

definition getHttpPort :: "string \<Rightarrow> number" where
  "getHttpPort cmd =
     (case exec (matchHere ''--dapr-http-port '' isDigit) cmd of
        Some portString \<Rightarrow> parseInt portString
      | None \<Rightarrow> Num 3500)"

definition toApplication :: "string option \<Rightarrow> int \<Rightarrow> DaprApplication option" where
  "toApplication cmd processId =
     (case cmd of
        None \<Rightarrow> None
      | Some c \<Rightarrow>
          if c \<noteq> ''''
          then (case getAppId c of
                  None \<Rightarrow> None
                | Some a \<Rightarrow>
                    if a \<noteq> ''''
                    then Some \<lparr>appId = a, httpPort = getHttpPort c, pid = Some processId\<rparr>
                    else None)
          else None)"

subsection \<open>Refreshing\<close>

text \<open>
  \<open>refreshApplications\<close> and \<open>onRefresh\<close> are asynchronous; each is cut at its
  \<open>await\<close>.  The promises \<open>onRefresh\<close> has returned are kept in a list (a promise is
  its index), one call of \<open>listProcesses\<close> each; \<open>awaiting\<close> holds, for every call
  of \<open>refreshApplications\<close> suspended at \<open>await this.currentRefresh\<close>, the promise it
  awaits.  The field \<open>applications\<close> of the class is \<open>listed\<close> here (\<open>None\<close> is
  \<open>undefined\<close>), and \<open>changed\<close> counts the runs of \<open>onDidChangeEmitter.fire()\<close>.
\<close>

record ProcessInfo =
  process_cmd :: "string option"
  process_pid :: int

datatype promise = Pending | Fulfilled | Rejected

record ProcessBasedProvider =
  listed :: "DaprApplication list option"
  currentRefresh :: "nat option"
  promises :: "promise list"
  awaiting :: "nat list"
  changed :: nat

definition newProvider :: ProcessBasedProvider where
  "newProvider = \<lparr>listed = None, currentRefresh = None, promises = [], awaiting = [], changed = 0\<rparr>"

text \<open>\<open>refreshApplications\<close> up to its \<open>await\<close>; \<open>onRefresh\<close> is entered when no refresh
  is marked in flight, and runs up to its own \<open>await\<close> of \<open>listProcesses\<close>.\<close>

definition refreshApplications :: "ProcessBasedProvider \<Rightarrow> ProcessBasedProvider" where
  "refreshApplications p =
     (case currentRefresh p of
        None \<Rightarrow>
          p\<lparr>promises := promises p @ [Pending],
            currentRefresh := Some (length (promises p)),
            awaiting := awaiting p @ [length (promises p)]\<rparr>
      | Some k \<Rightarrow> p\<lparr>awaiting := awaiting p @ [k]\<rparr>)"

text \<open>\<open>getApplications(refresh)\<close> up to its \<open>await\<close>.\<close>

definition getApplications :: "ProcessBasedProvider \<Rightarrow> bool \<Rightarrow> ProcessBasedProvider" where
  "getApplications p refresh = (if listed p = None \<or> refresh then refreshApplications p else p)"

text \<open>The rest of \<open>onRefresh\<close>, once \<open>listProcesses\<close> has answered for promise \<open>k\<close>:
  with the processes, or with a rejection (\<open>None\<close>), which rejects the promise.\<close>

definition onRefresh :: "ProcessBasedProvider \<Rightarrow> nat \<Rightarrow> ProcessInfo list option \<Rightarrow> ProcessBasedProvider" where
  "onRefresh p k answer =
     (if k < length (promises p) \<and> promises p ! k = Pending
      then (case answer of
              Some processes \<Rightarrow>
                p\<lparr>listed := Some (List.map_filter (\<lambda>process. toApplication (process_cmd process) (process_pid process)) processes),
                  changed := changed p + 1,
                  promises := (promises p)[k := Fulfilled]\<rparr>
            | None \<Rightarrow> p\<lparr>promises := (promises p)[k := Rejected]\<rparr>)
      else p)"

text \<open>The rest of the \<open>i\<close>-th suspended \<open>refreshApplications\<close>: on a fulfilled promise
  it clears the marker and returns; on a rejected one the \<open>await\<close> throws and the
  assignment after it is not reached.\<close>

datatype outcome = Returned | Threw | Suspended

definition resume :: "ProcessBasedProvider \<Rightarrow> nat \<Rightarrow> ProcessBasedProvider \<times> outcome" where
  "resume p i =
     (if i < length (awaiting p) \<and> awaiting p ! i < length (promises p)
      then (case promises p ! (awaiting p ! i) of
              Pending \<Rightarrow> (p, Suspended)
            | Fulfilled \<Rightarrow>
                (p\<lparr>awaiting := take i (awaiting p) @ drop (Suc i) (awaiting p), currentRefresh := None\<rparr>,
                 Returned)
            | Rejected \<Rightarrow>
                (p\<lparr>awaiting := take i (awaiting p) @ drop (Suc i) (awaiting p)\<rparr>, Threw))
      else (p, Suspended))"

text \<open>Everything that can happen to the provider, in any order.\<close>

datatype action =
    Tick
  | GetApplications bool
  | Listed nat "ProcessInfo list"
  | ListFailed nat
  | Resume nat

fun step :: "ProcessBasedProvider \<Rightarrow> action \<Rightarrow> ProcessBasedProvider" where
  "step p Tick = refreshApplications p"
| "step p (GetApplications refresh) = getApplications p refresh"
| "step p (Listed k processes) = onRefresh p k (Some processes)"
| "step p (ListFailed k) = onRefresh p k None"
| "step p (Resume i) = fst (resume p i)"

text \<open>A refresh has failed and nothing else is going on: the marker points to a
  rejected promise, no listing is pending, and every suspended call awaits that promise.\<close>

definition stuck :: "nat \<Rightarrow> ProcessBasedProvider \<Rightarrow> bool" where
  "stuck k p =
     (currentRefresh p = Some k \<and> k < length (promises p) \<and> promises p ! k = Rejected \<and>
      Pending \<notin> set (promises p) \<and> (\<forall>w \<in> set (awaiting p). w = k))"

text \<open>One refresh is in flight and nothing else is going on.\<close>

definition inFlight :: "nat \<Rightarrow> ProcessBasedProvider \<Rightarrow> bool" where
  "inFlight k p =
     (currentRefresh p = Some k \<and> k < length (promises p) \<and> promises p ! k = Pending \<and>
      (\<forall>j < length (promises p). j \<noteq> k \<longrightarrow> promises p ! j \<noteq> Pending) \<and>
      (\<forall>w \<in> set (awaiting p). w = k))"

text \<open>Nothing is going on: no refresh is marked, no listing is pending, no call is suspended.\<close>

definition quiet :: "ProcessBasedProvider \<Rightarrow> bool" where
  "quiet p = (currentRefresh p = None \<and> Pending \<notin> set (promises p) \<and> awaiting p = [])"

section \<open>Auxiliary notions and sample data\<close>

text \<open>\<open>answer.data\<close> of a pointer answer.\<close>

definition pointerTarget :: "MdnsAnswer \<Rightarrow> string" where
  "pointerTarget a = (case answer_data a of PTR n \<Rightarrow> n | _ \<Rightarrow> '''')"

text \<open>The invariant of the registry: every entry is resolved.\<close>

definition resolvedRegistry :: "registry \<Rightarrow> bool" where
  "resolvedRegistry known = (\<forall>n s. known n = Some s \<longrightarrow> fqdn s \<noteq> '''')"

text \<open>
  The records of the specification's end-to-end example (a service \<open>svcA\<close> of type
  \<open>_dapr._tcp.local\<close>), its goodbye record, and a server record with an empty target.
\<close>

definition ptrUp :: MdnsAnswer where
  "ptrUp = \<lparr>answer_name = ''_dapr._tcp.local'', answer_ttl = 120, answer_data = PTR ''svcA''\<rparr>"

definition ptrDown :: MdnsAnswer where
  "ptrDown = \<lparr>answer_name = ''_dapr._tcp.local'', answer_ttl = 0, answer_data = PTR ''svcA''\<rparr>"

definition srvA :: MdnsAnswer where
  "srvA = \<lparr>answer_name = ''svcA'', answer_ttl = 120, answer_data = SRV ''host.local'' 50001\<rparr>"

definition srvEmpty :: MdnsAnswer where
  "srvEmpty = \<lparr>answer_name = ''svcA'', answer_ttl = 120, answer_data = SRV '''' 50001\<rparr>"

definition txtA :: MdnsAnswer where
  "txtA = \<lparr>answer_name = ''svcA'', answer_ttl = 120,
           answer_data = TXT [''appId=myapp'', ''httpPort=3501'']\<rparr>"

definition addrA :: MdnsAnswer where
  "addrA = \<lparr>answer_name = ''host.local'', answer_ttl = 120, answer_data = A ''10.0.0.5''\<rparr>"

definition svcA :: MdnsService where
  "svcA = \<lparr>address = ''10.0.0.5'', fqdn = ''host.local'', name = ''svcA'', port = 50001,
           text = [''appId=myapp'', ''httpPort=3501'']\<rparr>"

text \<open>
  A service instance whose name is that of a member of \<open>Object.prototype\<close>: its
  announcement, its server record, its goodbye record, and the announcement resolved.
\<close>

definition ptrUpConstructor :: MdnsAnswer where
  "ptrUpConstructor =
     \<lparr>answer_name = ''_dapr._tcp.local'', answer_ttl = 120, answer_data = PTR ''constructor''\<rparr>"

definition ptrDownConstructor :: MdnsAnswer where
  "ptrDownConstructor =
     \<lparr>answer_name = ''_dapr._tcp.local'', answer_ttl = 0, answer_data = PTR ''constructor''\<rparr>"

definition srvConstructor :: MdnsAnswer where
  "srvConstructor =
     \<lparr>answer_name = ''constructor'', answer_ttl = 120, answer_data = SRV ''host.local'' 50001\<rparr>"

definition svcConstructor :: MdnsService where
  "svcConstructor =
     \<lparr>address = '''', fqdn = ''host.local'', name = ''constructor'', port = 50001, text = []\<rparr>"

text \<open>An earlier sighting of the same name, resolved differently.\<close>

definition svcOld :: MdnsService where
  "svcOld = \<lparr>address = '''', fqdn = ''old.local'', name = ''svcA'', port = 50000, text = []\<rparr>"

definition daprClient :: MdnsClient where
  "daprClient = start (newClient None) ''_dapr._tcp.local''"

definition appA :: DaprApplication where
  "appA = \<lparr>appId = ''myapp'', httpPort = Num 3501, pid = None\<rparr>"

definition appB :: DaprApplication where
  "appB = \<lparr>appId = ''other'', httpPort = Num 3502, pid = None\<rparr>"

text \<open>
  The words of the claim about TXT entries: an entry \<open>key=value\<close> whose value holds
  no further \<open>=\<close>, and the value of the first such entry for a key.
\<close>

definition isEntryOf :: "string \<Rightarrow> string \<Rightarrow> bool" where
  "isEntryOf key t = (prefix (key @ ''='') t \<and> CHR ''='' \<notin> set (drop (Suc (length key)) t))"

definition entryValue :: "string \<Rightarrow> string list \<Rightarrow> string option" where
  "entryValue key txt =
     (case find (isEntryOf key) txt of
        Some t \<Rightarrow> Some (drop (Suc (length key)) t)
      | None \<Rightarrow> None)"

text \<open>The command lines of the specification's example, and some others.\<close>

definition ordersCmd :: string where
  \<open>ordersCmd = ''daprd --app-id "orders" --dapr-http-port "3600"''\<close>

definition plainCmd :: string where
  "plainCmd = ''daprd --app-id orders''"

definition equalsCmd :: string where
  "equalsCmd = ''daprd --app-id=orders''"

definition portOnlyCmd :: string where
  "portOnlyCmd = ''daprd --dapr-http-port 3600''"

section \<open>Properties of the mDNS client\<close>

subsection \<open>The candidates of a packet\<close>

lemma name_blank: "name (blank n) = n"
  by (simp add: blank_def)

lemma fqdn_blank: "fqdn (blank n) = ''''"
  by (simp add: blank_def)

lemma stagePointer_foldl:
  "foldl stagePointer (us, ds) xs =
     (us @ map (\<lambda>a. blank (pointerTarget a)) (filter (\<lambda>a. isPointerAnswer a \<and> answer_ttl a \<noteq> 0) xs),
      ds @ map pointerTarget (filter (\<lambda>a. isPointerAnswer a \<and> answer_ttl a = 0) xs))"
  by (induction xs arbitrary: us ds)
     (auto simp: isPointerAnswer_def pointerTarget_def split: MdnsData.splits)

lemma staged_eq:
  "staged t as =
     (map (\<lambda>a. blank (pointerTarget a))
        (filter (\<lambda>a. Some (answer_name a) = t \<and> isPointerAnswer a \<and> answer_ttl a \<noteq> 0) as),
      map pointerTarget
        (filter (\<lambda>a. Some (answer_name a) = t \<and> isPointerAnswer a \<and> answer_ttl a = 0) as))"
  by (simp add: staged_def stagePointer_foldl conj_commute conj_left_commute)

lemma staged_ups_blank: "c \<in> set (fst (staged t as)) \<Longrightarrow> c = blank (name c)"
  by (auto simp: staged_eq name_blank)

lemma isPointerAnswer_iff: "isPointerAnswer a \<longleftrightarrow> answer_data a = PTR (pointerTarget a)"
  by (cases "answer_data a") (simp_all add: isPointerAnswer_def pointerTarget_def)

lemma staged_up_names:
  "n \<in> name ` set (fst (staged t as)) \<longleftrightarrow>
     (\<exists>a \<in> set as. Some (answer_name a) = t \<and> answer_data a = PTR n \<and> answer_ttl a \<noteq> 0)"
proof
  assume "n \<in> name ` set (fst (staged t as))"
  then obtain a where "a \<in> set as" "Some (answer_name a) = t" "isPointerAnswer a" "answer_ttl a \<noteq> 0"
    "n = pointerTarget a"
    by (auto simp: staged_eq name_blank)
  then show "\<exists>a \<in> set as. Some (answer_name a) = t \<and> answer_data a = PTR n \<and> answer_ttl a \<noteq> 0"
    using isPointerAnswer_iff by blast
next
  assume "\<exists>a \<in> set as. Some (answer_name a) = t \<and> answer_data a = PTR n \<and> answer_ttl a \<noteq> 0"
  then obtain a where a: "a \<in> set as" "Some (answer_name a) = t" "answer_data a = PTR n" "answer_ttl a \<noteq> 0"
    by blast
  then have "isPointerAnswer a" "pointerTarget a = n"
    by (simp_all add: isPointerAnswer_def pointerTarget_def)
  then have "blank n \<in> set (fst (staged t as))" using a by (force simp: staged_eq)
  then show "n \<in> name ` set (fst (staged t as))" using name_blank[of n] by (metis image_eqI)
qed

lemma staged_downs:
  "n \<in> set (snd (staged t as)) \<longleftrightarrow>
     (\<exists>a \<in> set as. Some (answer_name a) = t \<and> answer_data a = PTR n \<and> answer_ttl a = 0)"
proof
  assume "n \<in> set (snd (staged t as))"
  then obtain a where "a \<in> set as" "Some (answer_name a) = t" "isPointerAnswer a" "answer_ttl a = 0"
    "n = pointerTarget a"
    by (auto simp: staged_eq)
  then show "\<exists>a \<in> set as. Some (answer_name a) = t \<and> answer_data a = PTR n \<and> answer_ttl a = 0"
    using isPointerAnswer_iff by blast
next
  assume "\<exists>a \<in> set as. Some (answer_name a) = t \<and> answer_data a = PTR n \<and> answer_ttl a = 0"
  then obtain a where a: "a \<in> set as" "Some (answer_name a) = t" "answer_data a = PTR n" "answer_ttl a = 0"
    by blast
  then have "isPointerAnswer a" "pointerTarget a = n"
    by (simp_all add: isPointerAnswer_def pointerTarget_def)
  then show "n \<in> set (snd (staged t as))" using a by (force simp: staged_eq)
qed

subsection \<open>Resolving a candidate\<close>

lemma name_foldl_setServer: "name (foldl setServer s xs) = name s"
  by (induction xs arbitrary: s) (auto simp: setServer_def split: MdnsData.splits)

lemma name_foldl_setText: "name (foldl setText s xs) = name s"
  by (induction xs arbitrary: s) (auto simp: setText_def split: MdnsData.splits)

lemma name_foldl_setAddress: "name (foldl setAddress s xs) = name s"
  by (induction xs arbitrary: s) (auto simp: setAddress_def split: MdnsData.splits)

lemma fqdn_foldl_setText: "fqdn (foldl setText s xs) = fqdn s"
  by (induction xs arbitrary: s) (auto simp: setText_def split: MdnsData.splits)

lemma fqdn_foldl_setAddress: "fqdn (foldl setAddress s xs) = fqdn s"
  by (induction xs arbitrary: s) (auto simp: setAddress_def split: MdnsData.splits)

lemma port_foldl_setText: "port (foldl setText s xs) = port s"
  by (induction xs arbitrary: s) (auto simp: setText_def split: MdnsData.splits)

lemma port_foldl_setAddress: "port (foldl setAddress s xs) = port s"
  by (induction xs arbitrary: s) (auto simp: setAddress_def split: MdnsData.splits)

lemmas resolve_defs = resolve_def resolveServer_def resolveText_def resolveAddress_def

lemma name_resolve: "name (resolve as s) = name s"
  by (simp add: resolve_defs name_foldl_setServer name_foldl_setText name_foldl_setAddress)

lemma foldl_setServer_last:
  "xs \<noteq> [] \<Longrightarrow> answer_data (last xs) = SRV tg p \<Longrightarrow>
     fqdn (foldl setServer s xs) = tg \<and> port (foldl setServer s xs) = p"
  by (induction xs arbitrary: s rule: rev_induct) (auto simp: setServer_def)

lemma resolve_no_server:
  "filter isServerAnswer (filter (\<lambda>b. answer_name b = name s) as) = [] \<Longrightarrow>
     fqdn (resolve as s) = fqdn s"
  by (simp add: resolve_defs fqdn_foldl_setText fqdn_foldl_setAddress)

lemma resolve_last_server:
  "srvs = filter isServerAnswer (filter (\<lambda>b. answer_name b = name s) as) \<Longrightarrow> srvs \<noteq> [] \<Longrightarrow>
   answer_data (last srvs) = SRV tg p \<Longrightarrow>
     fqdn (resolve as s) = tg \<and> port (resolve as s) = p"
  using foldl_setServer_last[of srvs tg p s]
  by (simp add: resolve_defs fqdn_foldl_setText fqdn_foldl_setAddress
      port_foldl_setText port_foldl_setAddress)

lemma resolve_blank_last_server:
  assumes "srvs = filter isServerAnswer (filter (\<lambda>b. answer_name b = n) as)" "srvs \<noteq> []"
    "answer_data (last srvs) = SRV tg p"
  shows "fqdn (resolve as (blank n)) = tg \<and> port (resolve as (blank n)) = p"
  using resolve_last_server[of srvs "blank n" as tg p] assms by (simp add: name_blank)

lemma no_server_unresolved:
  "filter isServerAnswer (filter (\<lambda>b. answer_name b = n) as) = [] \<Longrightarrow>
     fqdn (resolve as (blank n)) = ''''"
  using resolve_no_server[of "blank n" as] by (simp add: name_blank fqdn_blank)

subsection \<open>Reading the registry\<close>

lemma lookup_own: "known n = Some s \<Longrightarrow> lookup known n = Some (Own s)"
  by (simp add: lookup_def)

lemma lookup_inherited:
  "known n = None \<Longrightarrow> n \<in> set objectPrototype \<Longrightarrow> lookup known n = Some (Inherited n)"
  by (simp add: lookup_def)

lemma lookup_None_iff: "lookup known n = None \<longleftrightarrow> known n = None \<and> n \<notin> set objectPrototype"
  by (simp add: lookup_def split: option.splits)

lemma lookup_None_known: "lookup known n = None \<Longrightarrow> known n = None"
  by (simp add: lookup_None_iff)

lemma lookup_other: "d \<noteq> n \<Longrightarrow> lookup (known(d := v)) n = lookup known n"
  by (simp add: lookup_def)

lemma lookup_deleted:
  "lookup (known(n := None)) n = (if n \<in> set objectPrototype then Some (Inherited n) else None)"
  by (simp add: lookup_def)

lemma svcA_not_inherited: "''svcA'' \<notin> set objectPrototype"
  by (simp add: objectPrototype_def)

lemma constructor_inherited: "''constructor'' \<in> set objectPrototype"
  by (simp add: objectPrototype_def)

subsection \<open>The loop over the up-candidates\<close>

lemma upLoop_Cons:
  "upLoop as known (c # cs) =
     (fst (upLoop as (fst (upService as known c)) cs),
      snd (upService as known c) @ snd (upLoop as (fst (upService as known c)) cs))"
  by (simp add: split_beta)

lemma downLoop_Cons:
  "downLoop known (d # ds) =
     (fst (downLoop (fst (downService known d)) ds),
      snd (downService known d) @ snd (downLoop (fst (downService known d)) ds))"
  by (simp add: split_beta)

declare upLoop.simps(2) [simp del] downLoop.simps(2) [simp del]

declare upLoop_Cons [simp] downLoop_Cons [simp]

lemma upService_known_kept:
  "known n = Some old \<Longrightarrow>
     fst (upService as known c) n = Some old \<and> filter (isUpOf n) (snd (upService as known c)) = []"
  by (cases "name c = n") (auto simp: upService_def Let_def name_resolve lookup_None_iff)

lemma upLoop_known_kept:
  "known n = Some old \<Longrightarrow>
     fst (upLoop as known cs) n = Some old \<and> filter (isUpOf n) (snd (upLoop as known cs)) = []"
  by (induction cs arbitrary: known) (simp_all add: upService_known_kept)

lemma upLoop_other_name:
  "n \<notin> name ` set cs \<Longrightarrow>
     fst (upLoop as known cs) n = known n \<and> filter (isUpOf n) (snd (upLoop as known cs)) = []"
  by (induction cs arbitrary: known)
     (auto simp: upService_def Let_def name_resolve split_beta)

lemma upLoop_unresolved:
  "\<forall>c \<in> set cs. name c = n \<longrightarrow> fqdn (resolve as c) = '''' \<Longrightarrow>
     fst (upLoop as known cs) n = known n \<and> filter (isUpOf n) (snd (upLoop as known cs)) = []"
  by (induction cs arbitrary: known)
     (auto simp: upService_def Let_def name_resolve split_beta)


lemma upLoop_fresh:
  "lookup known n = None \<Longrightarrow> n \<in> name ` set cs \<Longrightarrow> \<forall>c \<in> set cs. name c = n \<longrightarrow> resolve as c = s \<Longrightarrow>
   fqdn s \<noteq> '''' \<Longrightarrow>
     fst (upLoop as known cs) n = Some s \<and> filter (isUpOf n) (snd (upLoop as known cs)) = [ServiceUp s]"
proof (induction cs arbitrary: known)
  case Nil
  then show ?case by simp
next
  case (Cons c cs)
  show ?case
  proof (cases "name c = n")
    case True
    then have r: "resolve as c = s" using Cons.prems by simp
    have ns: "name s = n" using r True name_resolve[of as c] by simp
    have first: "upService as known c = (known(n \<mapsto> s), [ServiceUp s])"
      using Cons.prems r ns by (simp add: upService_def Let_def)
    have rest: "fst (upLoop as (known(n \<mapsto> s)) cs) n = Some s \<and>
                filter (isUpOf n) (snd (upLoop as (known(n \<mapsto> s)) cs)) = []"
      by (rule upLoop_known_kept) simp
    show ?thesis using first rest ns by simp
  next
    case False
    obtain k1 f1 where first: "upService as known c = (k1, f1)" by (cases "upService as known c")
    have k1: "lookup k1 n = None" and f1: "filter (isUpOf n) f1 = []"
      using first False Cons.prems(1)
      by (auto simp: upService_def Let_def name_resolve lookup_other split: if_splits)
    have "n \<in> name ` set cs" using Cons.prems(2) False by auto
    then have "fst (upLoop as k1 cs) n = Some s \<and> filter (isUpOf n) (snd (upLoop as k1 cs)) = [ServiceUp s]"
      using Cons.IH[of k1] k1 Cons.prems by simp
    then show ?thesis using first f1 by simp
  qed
qed

lemma upLoop_events:
  "e \<in> set (snd (upLoop as known cs)) \<Longrightarrow>
     \<exists>c \<in> set cs. e = ServiceUp (resolve as c) \<and> fqdn (resolve as c) \<noteq> ''''"
  by (induction cs arbitrary: known)
     (auto simp: upService_def Let_def split: if_splits)

lemma upLoop_entries:
  "fst (upLoop as known cs) n = Some s \<Longrightarrow>
     known n = Some s \<or> (\<exists>c \<in> set cs. s = resolve as c \<and> name c = n \<and> fqdn s \<noteq> '''')"
proof (induction cs arbitrary: known)
  case Nil
  then show ?case by simp
next
  case (Cons c cs)
  obtain k1 f1 where first: "upService as known c = (k1, f1)" by (cases "upService as known c")
  have "fst (upLoop as k1 cs) n = Some s" using Cons.prems first by simp
  then have "k1 n = Some s \<or> (\<exists>c \<in> set cs. s = resolve as c \<and> name c = n \<and> fqdn s \<noteq> '''')"
    by (rule Cons.IH)
  moreover have "k1 n = Some s \<Longrightarrow> known n = Some s \<or> (s = resolve as c \<and> name c = n \<and> fqdn s \<noteq> '''')"
    using first by (auto simp: upService_def Let_def name_resolve split: if_splits)
  ultimately show ?case by auto
qed


subsection \<open>The loop over the down-candidates\<close>

lemma downService_absent: "lookup known n = None \<Longrightarrow> downService known n = (known, [])"
  by (simp add: downService_def)

lemma downService_found:
  "lookup known n = Some v \<Longrightarrow> downService known n = (known(n := None), [ServiceDown v])"
  by (simp add: downService_def)

lemma downService_registry: "fst (downService known d) = known(d := None)"
proof (cases "lookup known d")
  case None
  then have "known d = None" by (rule lookup_None_known)
  then have "known(d := None) = known" by (rule fun_upd_idem)
  then show ?thesis using None by (simp add: downService_absent)
next
  case (Some v)
  then show ?thesis by (simp add: downService_found)
qed

lemma downLoop_registry:
  "fst (downLoop known ds) n = (if n \<in> set ds then None else known n)"
  by (induction ds arbitrary: known) (auto simp: downService_registry)

lemma downLoop_absent:
  "\<forall>n \<in> set ds. lookup known n = None \<Longrightarrow> downLoop known ds = (known, [])"
  by (induction ds arbitrary: known) (auto simp: downService_absent)

lemma downLoop_downs:
  "\<exists>ss. snd (downLoop known ds) = map ServiceDown ss"
proof (induction ds arbitrary: known)
  case Nil
  then show ?case by simp
next
  case (Cons d ds)
  obtain k1 f1 where first: "downService known d = (k1, f1)" by (cases "downService known d")
  obtain ss where ss: "snd (downLoop k1 ds) = map ServiceDown ss" using Cons.IH[of k1] by blast
  have "f1 = [] \<or> (\<exists>s. f1 = [ServiceDown s])"
    using first by (auto simp: downService_def split: option.splits)
  then show ?case
  proof
    assume "f1 = []"
    then have "snd (downLoop known (d # ds)) = map ServiceDown ss" using first ss by simp
    then show ?thesis by blast
  next
    assume "\<exists>s. f1 = [ServiceDown s]"
    then obtain s where "f1 = [ServiceDown s]" by blast
    then have "snd (downLoop known (d # ds)) = map ServiceDown (s # ss)" using first ss by simp
    then show ?thesis by blast
  qed
qed

lemma downLoop_no_ups: "filter (isUpOf n) (snd (downLoop known ds)) = []"
  using downLoop_downs[of known ds] by (auto simp: filter_empty_conv)


lemma downLoop_skip:
  "lookup known n = None \<Longrightarrow> downLoop known (filter (\<lambda>d. d \<noteq> n) ds) = downLoop known ds"
proof (induction ds arbitrary: known)
  case Nil
  then show ?case by simp
next
  case (Cons d ds)
  show ?case
  proof (cases "d = n")
    case True
    then have "downService known d = (known, [])" using Cons.prems by (simp add: downService_def)
    then show ?thesis using True Cons.IH[of known] Cons.prems by simp
  next
    case False
    have "lookup (fst (downService known d)) n = None"
      using False Cons.prems by (simp add: downService_registry lookup_other)
    then show ?thesis using False Cons.IH[of "fst (downService known d)"] by simp
  qed
qed


subsection \<open>A whole packet\<close>

lemma onResponse_eq:
  "onResponse c packet =
     (c\<lparr>knownServices :=
          fst (downLoop (fst (upLoop (answers packet) (knownServices c) (fst (staged (type c) (answers packet)))))
                 (snd (staged (type c) (answers packet))))\<rparr>,
      snd (upLoop (answers packet) (knownServices c) (fst (staged (type c) (answers packet)))) @
      snd (downLoop (fst (upLoop (answers packet) (knownServices c) (fst (staged (type c) (answers packet)))))
             (snd (staged (type c) (answers packet)))))"
  by (simp add: onResponse_def split_beta)

lemma onResponse_entries:
  assumes "knownServices (fst (onResponse c packet)) n = Some s"
  shows "knownServices c n = Some s \<or> (fqdn s \<noteq> '''' \<and> name s = n)"
proof -
  let ?as = "answers packet"
  let ?ups = "fst (staged (type c) ?as)"
  let ?downs = "snd (staged (type c) ?as)"
  have "fst (downLoop (fst (upLoop ?as (knownServices c) ?ups)) ?downs) n = Some s"
    using assms by (simp add: onResponse_eq)
  then have "fst (upLoop ?as (knownServices c) ?ups) n = Some s"
    by (simp add: downLoop_registry split: if_splits)
  then show ?thesis using upLoop_entries[of ?as "knownServices c" ?ups n s] name_resolve by auto
qed

lemma onResponse_up_events:
  assumes "ServiceUp s \<in> set (snd (onResponse c packet))"
  shows "fqdn s \<noteq> ''''"
proof -
  let ?as = "answers packet"
  let ?ups = "fst (staged (type c) ?as)"
  obtain ds where ds: "snd (downLoop (fst (upLoop ?as (knownServices c) ?ups)) (snd (staged (type c) ?as)))
       = map ServiceDown ds"
    using downLoop_downs by blast
  have "ServiceUp s \<in> set (snd (upLoop ?as (knownServices c) ?ups))"
    using assms ds by (auto simp: onResponse_eq)
  then show ?thesis using upLoop_events[of "ServiceUp s" ?as "knownServices c" ?ups] by auto
qed

lemma onResponse_unresolved:
  assumes "fqdn (resolve (answers packet) (blank n)) = ''''"
  shows "filter (isUpOf n) (snd (onResponse c packet)) = [] \<and>
         (knownServices (fst (onResponse c packet)) n = None \<or>
          knownServices (fst (onResponse c packet)) n = knownServices c n)"
proof -
  let ?as = "answers packet"
  let ?ups = "fst (staged (type c) ?as)"
  have "\<forall>x \<in> set ?ups. name x = n \<longrightarrow> fqdn (resolve ?as x) = ''''"
    using staged_ups_blank[of _ "type c" ?as] assms by metis
  then have "fst (upLoop ?as (knownServices c) ?ups) n = knownServices c n \<and>
     filter (isUpOf n) (snd (upLoop ?as (knownServices c) ?ups)) = []"
    by (rule upLoop_unresolved)
  then show ?thesis by (simp add: onResponse_eq downLoop_no_ups downLoop_registry)
qed

subsection \<open>Dropping the goodbye records of a name from a packet\<close>

lemma filter_kept:
  "(\<And>x. P x \<Longrightarrow> keep x) \<Longrightarrow> filter P (filter Q (filter keep as)) = filter P (filter Q as)"
  by (induction as) auto

lemma resolve_without_pointers:
  assumes "\<And>x. \<not> keep x \<Longrightarrow> isPointerAnswer x"
  shows "resolve (filter keep as) s = resolve as s"
proof -
  have sv: "isServerAnswer x \<Longrightarrow> keep x" for x
    using assms[of x] by (cases "answer_data x") (auto simp: isServerAnswer_def isPointerAnswer_def)
  have tx: "isTextAnswer x \<Longrightarrow> keep x" for x
    using assms[of x] by (cases "answer_data x") (auto simp: isTextAnswer_def isPointerAnswer_def)
  have ad: "isAddressAnswer x \<Longrightarrow> keep x" for x
    using assms[of x] by (cases "answer_data x") (auto simp: isAddressAnswer_def isPointerAnswer_def)
  have rs: "resolveServer (filter keep as) v = resolveServer as v" for v
    using filter_kept[of isServerAnswer keep "\<lambda>answer. answer_name answer = name v" as, OF sv]
    by (simp only: resolveServer_def)
  have rt: "resolveText (filter keep as) v = resolveText as v" for v
    using filter_kept[of isTextAnswer keep "\<lambda>answer. answer_name answer = name v" as, OF tx]
    by (simp only: resolveText_def)
  have ra: "resolveAddress (filter keep as) v = resolveAddress as v" for v
    using filter_kept[of isAddressAnswer keep "\<lambda>answer. answer_name answer = fqdn v" as, OF ad]
    by (simp only: resolveAddress_def)
  show ?thesis
    unfolding resolve_def rs rt ra ..
qed

lemma upLoop_without_pointers:
  assumes "\<And>x. \<not> keep x \<Longrightarrow> isPointerAnswer x"
  shows "upLoop (filter keep as) known cs = upLoop as known cs"
  by (induction cs arbitrary: known)
     (simp_all add: upService_def resolve_without_pointers[of keep, OF assms])

lemma staged_without_goodbye:
  "staged t (filter (\<lambda>b. \<not> (Some (answer_name b) = t \<and> answer_data b = PTR n \<and> answer_ttl b = 0)) as) =
     (fst (staged t as), filter (\<lambda>d. d \<noteq> n) (snd (staged t as)))"
proof -
  let ?Z = "\<lambda>b. Some (answer_name b) = t \<and> answer_data b = PTR n \<and> answer_ttl b = 0"
  have ups: "filter (\<lambda>a. Some (answer_name a) = t \<and> isPointerAnswer a \<and> answer_ttl a \<noteq> 0)
               (filter (\<lambda>b. \<not> ?Z b) as)
           = filter (\<lambda>a. Some (answer_name a) = t \<and> isPointerAnswer a \<and> answer_ttl a \<noteq> 0) as"
    by (induction as) auto
  have downs: "map pointerTarget (filter (\<lambda>a. Some (answer_name a) = t \<and> isPointerAnswer a \<and> answer_ttl a = 0)
               (filter (\<lambda>b. \<not> ?Z b) as))
           = filter (\<lambda>d. d \<noteq> n) (map pointerTarget
               (filter (\<lambda>a. Some (answer_name a) = t \<and> isPointerAnswer a \<and> answer_ttl a = 0) as))"
    by (induction as) (auto simp: isPointerAnswer_def pointerTarget_def split: MdnsData.splits)
  show ?thesis
    unfolding staged_eq fst_conv snd_conv ups downs ..
qed

lemma onResponse_without_goodbye:
  assumes "lookup (knownServices c) n = None"
    and "\<not> (\<exists>a \<in> set (answers packet). Some (answer_name a) = type c \<and> answer_data a = PTR n \<and> answer_ttl a \<noteq> 0)"
  shows "onResponse c packet =
           onResponse c (packet\<lparr>answers :=
             filter (\<lambda>b. \<not> (Some (answer_name b) = type c \<and> answer_data b = PTR n \<and> answer_ttl b = 0))
               (answers packet)\<rparr>)
       \<and> knownServices (fst (onResponse c packet)) n = None"
proof -
  let ?as = "answers packet"
  let ?keep = "\<lambda>b. \<not> (Some (answer_name b) = type c \<and> answer_data b = PTR n \<and> answer_ttl b = 0)"
  let ?ups = "fst (staged (type c) ?as)"
  let ?downs = "snd (staged (type c) ?as)"
  have ptr: "\<And>x. \<not> ?keep x \<Longrightarrow> isPointerAnswer x"
    by (simp add: isPointerAnswer_def)
  have notcand: "n \<notin> name ` set ?ups"
    using assms(2) staged_up_names[of n "type c" ?as] by blast
  have k1n: "fst (upLoop ?as (knownServices c) ?ups) n = None"
    using upLoop_other_name[OF notcand, of ?as "knownServices c"] assms(1) by (simp add: lookup_None_iff)
  have k1: "lookup (fst (upLoop ?as (knownServices c) ?ups)) n = None"
    using k1n assms(1) by (simp add: lookup_None_iff)
  have skip: "downLoop (fst (upLoop ?as (knownServices c) ?ups)) (filter (\<lambda>d. d \<noteq> n) ?downs)
            = downLoop (fst (upLoop ?as (knownServices c) ?ups)) ?downs"
    using k1 by (rule downLoop_skip)
  have a': "answers (packet\<lparr>answers := filter ?keep ?as\<rparr>) = filter ?keep ?as"
    by simp
  have st: "staged (type c) (filter ?keep ?as) = (?ups, filter (\<lambda>d. d \<noteq> n) ?downs)"
    by (rule staged_without_goodbye)
  have ul: "upLoop (filter ?keep ?as) (knownServices c) ?ups = upLoop ?as (knownServices c) ?ups"
    by (rule upLoop_without_pointers[of ?keep, OF ptr])
  have r1: "onResponse c (packet\<lparr>answers := filter ?keep ?as\<rparr>) =
     (c\<lparr>knownServices := fst (downLoop (fst (upLoop ?as (knownServices c) ?ups)) ?downs)\<rparr>,
      snd (upLoop ?as (knownServices c) ?ups) @
      snd (downLoop (fst (upLoop ?as (knownServices c) ?ups)) ?downs))"
    unfolding onResponse_eq a' st fst_conv snd_conv ul skip ..
  have same: "onResponse c packet = onResponse c (packet\<lparr>answers := filter ?keep ?as\<rparr>)"
    unfolding r1 by (rule onResponse_eq)
  have "knownServices (fst (onResponse c packet)) n = None"
    using k1n by (simp add: onResponse_eq downLoop_registry)
  then show ?thesis using same by blast
qed

subsection \<open>The sample packets, evaluated\<close>

lemmas record_defs = ptrUp_def ptrDown_def srvA_def srvEmpty_def txtA_def addrA_def
  ptrUpConstructor_def ptrDownConstructor_def srvConstructor_def

lemma daprClient_type: "type daprClient = Some ''_dapr._tcp.local''"
  by (simp add: daprClient_def start_def stop_def newClient_def)

lemma daprClient_known: "knownServices daprClient = Map.empty"
  by (simp add: daprClient_def start_def stop_def newClient_def)

lemma upService_inserts:
  "resolve as c = s \<Longrightarrow> fqdn s \<noteq> '''' \<Longrightarrow> lookup known (name s) = None \<Longrightarrow>
     upService as known c = (known(name s \<mapsto> s), [ServiceUp s])"
  by (simp add: upService_def)

lemma upService_skips:
  "resolve as c = s \<Longrightarrow> fqdn s = '''' \<or> lookup known (name s) \<noteq> None \<Longrightarrow>
     upService as known c = (known, [])"
  by (auto simp: upService_def)

lemma lookup_empty_svcA: "lookup Map.empty ''svcA'' = None"
  by (simp add: lookup_None_iff svcA_not_inherited)

lemma staged_announce: "staged (Some ''_dapr._tcp.local'') [ptrUp, srvA, txtA, addrA] = ([blank ''svcA''], [])"
  by (simp add: staged_def isPointerAnswer_def record_defs)

lemma resolve_announce: "resolve [ptrUp, srvA, txtA, addrA] (blank ''svcA'') = svcA"
  by (simp add: resolve_defs isServerAnswer_def isTextAnswer_def isAddressAnswer_def
      setServer_def setText_def setAddress_def blank_def record_defs svcA_def)

lemma staged_flap:
  "staged (Some ''_dapr._tcp.local'') [ptrUp, srvA, txtA, addrA, ptrDown] = ([blank ''svcA''], [''svcA''])"
  by (simp add: staged_def isPointerAnswer_def record_defs)

lemma resolve_flap: "resolve [ptrUp, srvA, txtA, addrA, ptrDown] (blank ''svcA'') = svcA"
  by (simp add: resolve_defs isServerAnswer_def isTextAnswer_def isAddressAnswer_def
      setServer_def setText_def setAddress_def blank_def record_defs svcA_def)

lemma staged_unresolved:
  "staged (Some ''_dapr._tcp.local'') [ptrUp, txtA, addrA] = ([blank ''svcA''], [])"
  by (simp add: staged_def isPointerAnswer_def record_defs)

lemma resolve_unresolved: "fqdn (resolve [ptrUp, txtA, addrA] (blank ''svcA'')) = ''''"
  by (simp add: resolve_defs isServerAnswer_def isTextAnswer_def isAddressAnswer_def
      setServer_def setText_def setAddress_def blank_def record_defs)

lemma staged_emptyTarget:
  "staged (Some ''_dapr._tcp.local'') [ptrUp, srvEmpty] = ([blank ''svcA''], [])"
  by (simp add: staged_def isPointerAnswer_def record_defs)

lemma resolve_emptyTarget: "fqdn (resolve [ptrUp, srvEmpty] (blank ''svcA'')) = ''''"
  by (simp add: resolve_defs isServerAnswer_def isTextAnswer_def isAddressAnswer_def
      setServer_def setText_def setAddress_def blank_def record_defs)

lemma staged_goodbye: "staged (Some ''_dapr._tcp.local'') [ptrDown] = ([], [''svcA''])"
  by (simp add: staged_def isPointerAnswer_def record_defs)

lemma svcA_fields: "name svcA = ''svcA''" "fqdn svcA = ''host.local''" "port svcA = 50001"
  by (simp_all add: svcA_def)

lemma onResponse_announce:
  "onResponse daprClient \<lparr>answers = [ptrUp, srvA, txtA, addrA]\<rparr> =
     (daprClient\<lparr>knownServices := [''svcA'' \<mapsto> svcA]\<rparr>, [ServiceUp svcA])"
proof -
  have "upService [ptrUp, srvA, txtA, addrA] Map.empty (blank ''svcA'') =
          ([''svcA'' \<mapsto> svcA], [ServiceUp svcA])"
    using upService_inserts[OF resolve_announce, of Map.empty] by (simp add: svcA_fields lookup_empty_svcA)
  then show ?thesis
    by (simp add: onResponse_eq daprClient_type daprClient_known staged_announce)
qed

lemma onResponse_announce_again:
  "onResponse (daprClient\<lparr>knownServices := [''svcA'' \<mapsto> svcA]\<rparr>) \<lparr>answers = [ptrUp, srvA, txtA, addrA]\<rparr> =
     (daprClient\<lparr>knownServices := [''svcA'' \<mapsto> svcA]\<rparr>, [])"
proof -
  have "upService [ptrUp, srvA, txtA, addrA] [''svcA'' \<mapsto> svcA] (blank ''svcA'') =
          ([''svcA'' \<mapsto> svcA], [])"
    using upService_skips[OF resolve_announce, of "[''svcA'' \<mapsto> svcA]"] by (simp add: svcA_fields lookup_own)
  then show ?thesis
    by (simp add: onResponse_eq daprClient_type staged_announce)
qed

lemma onResponse_flap:
  "onResponse daprClient \<lparr>answers = [ptrUp, srvA, txtA, addrA, ptrDown]\<rparr> =
     (daprClient\<lparr>knownServices := Map.empty\<rparr>, [ServiceUp svcA, ServiceDown (Own svcA)])"
proof -
  have "upService [ptrUp, srvA, txtA, addrA, ptrDown] Map.empty (blank ''svcA'') =
          ([''svcA'' \<mapsto> svcA], [ServiceUp svcA])"
    using upService_inserts[OF resolve_flap, of Map.empty] by (simp add: svcA_fields lookup_empty_svcA)
  moreover have "downService [''svcA'' \<mapsto> svcA] ''svcA'' = (Map.empty, [ServiceDown (Own svcA)])"
    using downService_found[of "[''svcA'' \<mapsto> svcA]" "''svcA''" "Own svcA"] by (simp add: lookup_own)
  ultimately show ?thesis
    by (simp add: onResponse_eq daprClient_type daprClient_known staged_flap)
qed

lemma onResponse_unresolved_packet:
  "onResponse daprClient \<lparr>answers = [ptrUp, txtA, addrA]\<rparr> = (daprClient\<lparr>knownServices := Map.empty\<rparr>, [])"
proof -
  have "upService [ptrUp, txtA, addrA] Map.empty (blank ''svcA'') = (Map.empty, [])"
    using upService_skips[OF refl, of "[ptrUp, txtA, addrA]" "blank ''svcA''" Map.empty]
    by (simp add: resolve_unresolved)
  then show ?thesis
    by (simp add: onResponse_eq daprClient_type daprClient_known staged_unresolved)
qed

lemma onResponse_emptyTarget:
  "onResponse daprClient \<lparr>answers = [ptrUp, srvEmpty]\<rparr> = (daprClient\<lparr>knownServices := Map.empty\<rparr>, [])"
proof -
  have "upService [ptrUp, srvEmpty] Map.empty (blank ''svcA'') = (Map.empty, [])"
    using upService_skips[OF refl, of "[ptrUp, srvEmpty]" "blank ''svcA''" Map.empty]
    by (simp add: resolve_emptyTarget)
  then show ?thesis
    by (simp add: onResponse_eq daprClient_type daprClient_known staged_emptyTarget)
qed

lemma onResponse_goodbye:
  "onResponse daprClient \<lparr>answers = [ptrDown]\<rparr> = (daprClient\<lparr>knownServices := Map.empty\<rparr>, [])"
  by (simp add: onResponse_eq daprClient_type daprClient_known staged_goodbye downService_absent
      lookup_empty_svcA)

text \<open>The same packets for the instance named \<open>constructor\<close>.\<close>

lemma lookup_empty_constructor: "lookup Map.empty ''constructor'' = Some (Inherited ''constructor'')"
  by (simp add: lookup_inherited constructor_inherited)

lemma staged_constructor_announce:
  "staged (Some ''_dapr._tcp.local'') [ptrUpConstructor, srvConstructor] = ([blank ''constructor''], [])"
  by (simp add: staged_def isPointerAnswer_def record_defs)

lemma resolve_constructor_announce:
  "resolve [ptrUpConstructor, srvConstructor] (blank ''constructor'') = svcConstructor"
  by (simp add: resolve_defs isServerAnswer_def isTextAnswer_def isAddressAnswer_def
      setServer_def setText_def setAddress_def blank_def record_defs svcConstructor_def)

lemma staged_constructor_flap:
  "staged (Some ''_dapr._tcp.local'') [ptrUpConstructor, srvConstructor, ptrDownConstructor]
     = ([blank ''constructor''], [''constructor''])"
  by (simp add: staged_def isPointerAnswer_def record_defs)

lemma resolve_constructor_flap:
  "resolve [ptrUpConstructor, srvConstructor, ptrDownConstructor] (blank ''constructor'') = svcConstructor"
  by (simp add: resolve_defs isServerAnswer_def isTextAnswer_def isAddressAnswer_def
      setServer_def setText_def setAddress_def blank_def record_defs svcConstructor_def)

lemma staged_constructor_goodbye:
  "staged (Some ''_dapr._tcp.local'') [ptrDownConstructor] = ([], [''constructor''])"
  by (simp add: staged_def isPointerAnswer_def record_defs)

lemma svcConstructor_fields: "name svcConstructor = ''constructor''" "fqdn svcConstructor = ''host.local''"
  by (simp_all add: svcConstructor_def)

lemma downService_constructor:
  "downService Map.empty ''constructor'' = (Map.empty, [ServiceDown (Inherited ''constructor'')])"
  using downService_found[OF lookup_empty_constructor] by simp

lemma onResponse_constructor_announce:
  "onResponse daprClient \<lparr>answers = [ptrUpConstructor, srvConstructor]\<rparr> =
     (daprClient\<lparr>knownServices := Map.empty\<rparr>, [])"
proof -
  have "upService [ptrUpConstructor, srvConstructor] Map.empty (blank ''constructor'') = (Map.empty, [])"
    using upService_skips[OF resolve_constructor_announce, of Map.empty]
    by (simp add: svcConstructor_fields lookup_empty_constructor)
  then show ?thesis
    by (simp add: onResponse_eq daprClient_type daprClient_known staged_constructor_announce)
qed

lemma onResponse_constructor_flap:
  "onResponse daprClient \<lparr>answers = [ptrUpConstructor, srvConstructor, ptrDownConstructor]\<rparr> =
     (daprClient\<lparr>knownServices := Map.empty\<rparr>, [ServiceDown (Inherited ''constructor'')])"
proof -
  have "upService [ptrUpConstructor, srvConstructor, ptrDownConstructor] Map.empty (blank ''constructor'')
          = (Map.empty, [])"
    using upService_skips[OF resolve_constructor_flap, of Map.empty]
    by (simp add: svcConstructor_fields lookup_empty_constructor)
  then show ?thesis
    by (simp add: onResponse_eq daprClient_type daprClient_known staged_constructor_flap
        downService_constructor)
qed

lemma onResponse_constructor_goodbye:
  "onResponse daprClient \<lparr>answers = [ptrDownConstructor]\<rparr> =
     (daprClient\<lparr>knownServices := Map.empty\<rparr>, [ServiceDown (Inherited ''constructor'')])"
  by (simp add: onResponse_eq daprClient_type daprClient_known staged_constructor_goodbye
      downService_constructor)

subsection \<open>The claims about the client\<close>

text \<open>
  Claim C1, as amended.  Let a packet hold a pointer record of non-zero TTL owned by the
  bound type, with target \<open>n\<close>, and at least one server record owned by \<open>n\<close>, the last of
  which has a non-empty target \<open>tg\<close> and port \<open>p\<close>.  If \<open>n\<close> is not in the registry and is
  not the name of a member of \<open>Object.prototype\<close>, then exactly one \<open>onServiceUp\<close> event
  for \<open>n\<close> is fired; its record is the resolved candidate, with \<open>fqdn = tg\<close> and
  \<open>port = p\<close>; and afterwards the registry holds that record under \<open>n\<close>, unless the packet
  also carries a pointer record of zero TTL for \<open>n\<close>, in which case \<open>n\<close> is absent.
\<close>

theorem onResponse_up_once:
  assumes ptr: "a \<in> set (answers packet)" "Some (answer_name a) = type c"
               "answer_data a = PTR n" "answer_ttl a \<noteq> 0"
    and srvs: "srvs = filter isServerAnswer (filter (\<lambda>b. answer_name b = n) (answers packet))"
              "srvs \<noteq> []" "answer_data (last srvs) = SRV tg p" "tg \<noteq> ''''"
    and fresh: "knownServices c n = None"
    and plain: "n \<notin> set objectPrototype"
  shows "filter (isUpOf n) (snd (onResponse c packet)) = [ServiceUp (resolve (answers packet) (blank n))]
       \<and> name (resolve (answers packet) (blank n)) = n
       \<and> fqdn (resolve (answers packet) (blank n)) = tg
       \<and> port (resolve (answers packet) (blank n)) = p
       \<and> knownServices (fst (onResponse c packet)) n =
           (if \<exists>b \<in> set (answers packet).
                  Some (answer_name b) = type c \<and> answer_data b = PTR n \<and> answer_ttl b = 0
            then None else Some (resolve (answers packet) (blank n)))"
proof -
  let ?as = "answers packet"
  let ?ups = "fst (staged (type c) ?as)"
  let ?downs = "snd (staged (type c) ?as)"
  let ?s = "resolve ?as (blank n)"
  have r: "fqdn ?s = tg \<and> port ?s = p"
    using resolve_blank_last_server[OF srvs(1,2,3)] .
  have cand: "n \<in> name ` set ?ups"
    using ptr staged_up_names[of n "type c" ?as] by blast
  have same: "\<forall>x \<in> set ?ups. name x = n \<longrightarrow> resolve ?as x = ?s"
    using staged_ups_blank[of _ "type c" ?as] by metis
  have unseen: "lookup (knownServices c) n = None"
    using fresh plain by (simp add: lookup_None_iff)
  have up: "fst (upLoop ?as (knownServices c) ?ups) n = Some ?s \<and>
            filter (isUpOf n) (snd (upLoop ?as (knownServices c) ?ups)) = [ServiceUp ?s]"
  proof (rule upLoop_fresh[OF unseen cand same])
    show "fqdn ?s \<noteq> ''''" using r srvs(4) by simp
  qed
  have ev: "filter (isUpOf n) (snd (onResponse c packet)) = [ServiceUp ?s]"
    using up by (simp add: onResponse_eq downLoop_no_ups)
  have reg: "knownServices (fst (onResponse c packet)) n = (if n \<in> set ?downs then None else Some ?s)"
    using up by (simp add: onResponse_eq downLoop_registry)
  show ?thesis
    using ev reg r by (simp add: name_resolve name_blank staged_downs)
qed

theorem onResponse_up_once_witness:
  "knownServices daprClient ''svcA'' = None
 \<and> ''svcA'' \<notin> set objectPrototype
 \<and> filter (isUpOf ''svcA'') (snd (onResponse daprClient \<lparr>answers = [ptrUp, srvA, txtA, addrA]\<rparr>))
     = [ServiceUp svcA]
 \<and> fqdn svcA = ''host.local'' \<and> port svcA = 50001
 \<and> knownServices (fst (onResponse daprClient \<lparr>answers = [ptrUp, srvA, txtA, addrA]\<rparr>)) ''svcA''
     = Some svcA"
proof -
  let ?packet = "\<lparr>answers = [ptrUp, srvA, txtA, addrA]\<rparr>"
  have h1: "ptrUp \<in> set (answers ?packet)" by simp
  have h2: "Some (answer_name ptrUp) = type daprClient" by (simp add: daprClient_type ptrUp_def)
  have h3: "answer_data ptrUp = PTR ''svcA''" by (simp add: ptrUp_def)
  have h4: "answer_ttl ptrUp \<noteq> 0" by (simp add: ptrUp_def)
  have h5: "[srvA] = filter isServerAnswer (filter (\<lambda>b. answer_name b = ''svcA'') (answers ?packet))"
    by (simp add: isServerAnswer_def record_defs)
  have h6: "[srvA] \<noteq> []" by simp
  have h7: "answer_data (last [srvA]) = SRV ''host.local'' 50001" by (simp add: srvA_def)
  have h8: "''host.local'' \<noteq> ''''" by simp
  have h9: "knownServices daprClient ''svcA'' = None" by (simp add: daprClient_known)
  have h10: "''svcA'' \<notin> set objectPrototype" by (rule svcA_not_inherited)
  have nodown: "\<not> (\<exists>b \<in> set (answers ?packet).
      Some (answer_name b) = type daprClient \<and> answer_data b = PTR ''svcA'' \<and> answer_ttl b = 0)"
    by (simp add: record_defs)
  have r: "resolve (answers ?packet) (blank ''svcA'') = svcA"
    by (simp add: resolve_announce)
  show ?thesis
    using onResponse_up_once[OF h1 h2 h3 h4 h5 h6 h7 h8 h9 h10] h9 h10
    unfolding r if_not_P[OF nodown] by simp
qed

text \<open>
  Claim C1 as it is stated fails in four ways: the name is already registered (a second
  announcement fires nothing); the same packet also withdraws the name (it is absent
  afterwards); the server record has an empty target (nothing is fired and nothing
  registered); the name is that of a member of \<open>Object.prototype\<close> (the read of the
  registry finds that member, so nothing is fired and nothing registered).
\<close>

theorem onResponse_up_not_always:
  "snd (onResponse (daprClient\<lparr>knownServices := [''svcA'' \<mapsto> svcA]\<rparr>)
         \<lparr>answers = [ptrUp, srvA, txtA, addrA]\<rparr>) = []
 \<and> knownServices (fst (onResponse daprClient \<lparr>answers = [ptrUp, srvA, txtA, addrA, ptrDown]\<rparr>)) ''svcA''
     = None
 \<and> snd (onResponse daprClient \<lparr>answers = [ptrUp, srvEmpty]\<rparr>) = []
 \<and> knownServices (fst (onResponse daprClient \<lparr>answers = [ptrUp, srvEmpty]\<rparr>)) ''svcA'' = None
 \<and> knownServices daprClient ''constructor'' = None
 \<and> snd (onResponse daprClient \<lparr>answers = [ptrUpConstructor, srvConstructor]\<rparr>) = []
 \<and> knownServices (fst (onResponse daprClient \<lparr>answers = [ptrUpConstructor, srvConstructor]\<rparr>))
      ''constructor'' = None"
  by (simp add: onResponse_announce_again onResponse_flap onResponse_emptyTarget
      onResponse_constructor_announce daprClient_known)



text \<open>
  Claim C3.  If a name is in the registry when a packet arrives, the packet fires no
  \<open>onServiceUp\<close> event for that name, the loop over the up-candidates leaves the entry as
  it was, and after the packet the entry is still the same one, or is gone when the
  packet also carries a pointer record of zero TTL for the name.
\<close>

theorem onResponse_up_idempotent:
  assumes "knownServices c n = Some old"
  shows "filter (isUpOf n) (snd (onResponse c packet)) = []
       \<and> fst (upLoop (answers packet) (knownServices c) (fst (staged (type c) (answers packet)))) n = Some old
       \<and> knownServices (fst (onResponse c packet)) n =
           (if \<exists>b \<in> set (answers packet).
                  Some (answer_name b) = type c \<and> answer_data b = PTR n \<and> answer_ttl b = 0
            then None else Some old)"
  using assms upLoop_known_kept[where known = "knownServices c" and n = n and old = old
      and as = "answers packet" and cs = "fst (staged (type c) (answers packet))"]
  by (auto simp: onResponse_eq downLoop_no_ups downLoop_registry staged_downs)

theorem onResponse_up_idempotent_witness:
  "knownServices (daprClient\<lparr>knownServices := [''svcA'' \<mapsto> svcOld]\<rparr>) ''svcA'' = Some svcOld
 \<and> resolve [ptrUp, srvA, txtA, addrA] (blank ''svcA'') = svcA
 \<and> filter (isUpOf ''svcA'')
      (snd (onResponse (daprClient\<lparr>knownServices := [''svcA'' \<mapsto> svcOld]\<rparr>)
             \<lparr>answers = [ptrUp, srvA, txtA, addrA]\<rparr>)) = []
 \<and> knownServices
      (fst (onResponse (daprClient\<lparr>knownServices := [''svcA'' \<mapsto> svcOld]\<rparr>)
             \<lparr>answers = [ptrUp, srvA, txtA, addrA]\<rparr>)) ''svcA'' = Some svcOld"
proof -
  let ?c = "daprClient\<lparr>knownServices := [''svcA'' \<mapsto> svcOld]\<rparr>"
  let ?packet = "\<lparr>answers = [ptrUp, srvA, txtA, addrA]\<rparr>"
  have h: "knownServices ?c ''svcA'' = Some svcOld" by simp
  have nodown: "\<not> (\<exists>b \<in> set (answers ?packet).
      Some (answer_name b) = type ?c \<and> answer_data b = PTR ''svcA'' \<and> answer_ttl b = 0)"
    by (simp add: record_defs)
  show ?thesis
    using onResponse_up_idempotent[OF h, of ?packet] h resolve_announce
    unfolding if_not_P[OF nodown] by simp
qed

lemma onResponse_resolved:
  "resolvedRegistry (knownServices c) \<Longrightarrow> resolvedRegistry (knownServices (fst (onResponse c packet)))"
  unfolding resolvedRegistry_def using onResponse_entries[of c packet] by blast

lemma deliverTimes_resolved:
  "resolvedRegistry (knownServices c) \<Longrightarrow>
     resolvedRegistry (knownServices (fst (deliverTimes k c packet)))"
proof (induction k arbitrary: c)
  case 0
  then show ?case by simp
next
  case (Suc k)
  have "resolvedRegistry (knownServices (fst (onResponse c packet)))"
    using Suc.prems by (rule onResponse_resolved)
  then have "resolvedRegistry (knownServices (fst (deliverTimes k (fst (onResponse c packet)) packet)))"
    by (rule Suc.IH)
  then show ?case by (simp add: split_beta)
qed

lemma applyOp_resolved:
  "resolvedRegistry (knownServices c) \<Longrightarrow> resolvedRegistry (knownServices (applyOp c op))"
proof (cases op)
  case (Arrives packet)
  assume "resolvedRegistry (knownServices c)"
  then show ?thesis using Arrives by (simp add: deliver_def deliverTimes_resolved)
next
  case (Start t)
  then show ?thesis by (simp add: start_def stop_def resolvedRegistry_def)
next
  case Stop
  then show ?thesis by (simp add: stop_def resolvedRegistry_def)
qed

lemma run_resolved:
  "resolvedRegistry (knownServices c) \<Longrightarrow> resolvedRegistry (knownServices (foldl applyOp c ops))"
  by (induction ops arbitrary: c) (simp_all add: applyOp_resolved)

text \<open>
  Claim C4.  Whatever the registry and the packet: an entry found in the registry after
  a packet was there before, or has a non-empty \<open>fqdn\<close> (and is filed under its own
  name); every \<open>onServiceUp\<close> event carries a non-empty \<open>fqdn\<close>; a name with no server
  record in the packet resolves to an empty \<open>fqdn\<close>; a name that resolves to an empty
  \<open>fqdn\<close> fires no \<open>onServiceUp\<close> and does not enter the registry, whatever text and
  address records there are.  Hence the invariant that every entry has a non-empty
  \<open>fqdn\<close> is kept by \<open>onResponse\<close>, it holds after \<open>stop\<close> and in a new client, and so
  it holds at every moment of the life of a client, whatever packets arrive and
  whenever it is started and stopped.
\<close>

theorem registry_resolved_only:
  "(\<forall>n s. knownServices (fst (onResponse c packet)) n = Some s \<longrightarrow>
            knownServices c n = Some s \<or> (fqdn s \<noteq> '''' \<and> name s = n))
 \<and> (\<forall>s. ServiceUp s \<in> set (snd (onResponse c packet)) \<longrightarrow> fqdn s \<noteq> '''')
 \<and> (\<forall>n. filter isServerAnswer (filter (\<lambda>b. answer_name b = n) (answers packet)) = [] \<longrightarrow>
          fqdn (resolve (answers packet) (blank n)) = '''')
 \<and> (\<forall>n. fqdn (resolve (answers packet) (blank n)) = '''' \<longrightarrow>
          filter (isUpOf n) (snd (onResponse c packet)) = [] \<and>
          (knownServices (fst (onResponse c packet)) n = None \<or>
           knownServices (fst (onResponse c packet)) n = knownServices c n))
 \<and> (resolvedRegistry (knownServices c) \<longrightarrow> resolvedRegistry (knownServices (fst (onResponse c packet))))
 \<and> resolvedRegistry (knownServices (stop c))
 \<and> resolvedRegistry (knownServices (newClient t))
 \<and> resolvedRegistry (knownServices (foldl applyOp (newClient t) ops))"
proof -
  have pres: "resolvedRegistry (knownServices c) \<longrightarrow> resolvedRegistry (knownServices (fst (onResponse c packet)))"
    using onResponse_resolved[of c packet] by blast
  have new: "resolvedRegistry (knownServices (newClient t))"
    by (simp add: resolvedRegistry_def newClient_def)
  have ever: "resolvedRegistry (knownServices (foldl applyOp (newClient t) ops))"
    using new by (rule run_resolved)
  have stopped: "resolvedRegistry (knownServices (stop c))"
    by (simp add: resolvedRegistry_def stop_def)
  have entries: "\<forall>n s. knownServices (fst (onResponse c packet)) n = Some s \<longrightarrow>
            knownServices c n = Some s \<or> (fqdn s \<noteq> '''' \<and> name s = n)"
    using onResponse_entries[of c packet] by blast
  have ups: "\<forall>s. ServiceUp s \<in> set (snd (onResponse c packet)) \<longrightarrow> fqdn s \<noteq> ''''"
    using onResponse_up_events[of _ c packet] by blast
  have nosrv: "\<forall>n. filter isServerAnswer (filter (\<lambda>b. answer_name b = n) (answers packet)) = [] \<longrightarrow>
          fqdn (resolve (answers packet) (blank n)) = ''''"
    using no_server_unresolved[of _ "answers packet"] by blast
  have unres: "\<forall>n. fqdn (resolve (answers packet) (blank n)) = '''' \<longrightarrow>
          filter (isUpOf n) (snd (onResponse c packet)) = [] \<and>
          (knownServices (fst (onResponse c packet)) n = None \<or>
           knownServices (fst (onResponse c packet)) n = knownServices c n)"
    using onResponse_unresolved[of packet _ c] by blast
  from entries ups nosrv unres pres stopped new ever show ?thesis by blast
qed

theorem registry_resolved_only_witness:
  "filter isServerAnswer (filter (\<lambda>b. answer_name b = ''svcA'') (answers \<lparr>answers = [ptrUp, txtA, addrA]\<rparr>)) = []
 \<and> fqdn (resolve (answers \<lparr>answers = [ptrUp, txtA, addrA]\<rparr>) (blank ''svcA'')) = ''''
 \<and> filter (isUpOf ''svcA'') (snd (onResponse daprClient \<lparr>answers = [ptrUp, txtA, addrA]\<rparr>)) = []
 \<and> knownServices (fst (onResponse daprClient \<lparr>answers = [ptrUp, txtA, addrA]\<rparr>)) ''svcA'' = None
 \<and> resolvedRegistry (knownServices daprClient)
 \<and> resolvedRegistry (knownServices (fst (onResponse daprClient \<lparr>answers = [ptrUp, txtA, addrA]\<rparr>)))
 \<and> knownServices (fst (onResponse daprClient \<lparr>answers = [ptrUp, srvA, txtA, addrA]\<rparr>)) ''svcA'' = Some svcA
 \<and> fqdn svcA \<noteq> ''''"
proof -
  let ?packet = "\<lparr>answers = [ptrUp, txtA, addrA]\<rparr>"
  let ?announce = "\<lparr>answers = [ptrUp, srvA, txtA, addrA]\<rparr>"
  note T = registry_resolved_only[of daprClient ?packet None "[]"]
  note U = registry_resolved_only[of daprClient ?announce None "[]"]
  have nosrv: "filter isServerAnswer (filter (\<lambda>b. answer_name b = ''svcA'') (answers ?packet)) = []"
    by (simp add: isServerAnswer_def record_defs)
  have inv: "resolvedRegistry (knownServices daprClient)"
    by (simp add: resolvedRegistry_def daprClient_known)
  have c3: "fqdn (resolve (answers ?packet) (blank ''svcA'')) = ''''"
    using T[THEN conjunct2, THEN conjunct2, THEN conjunct1, rule_format, OF nosrv] .
  have c4: "filter (isUpOf ''svcA'') (snd (onResponse daprClient ?packet)) = [] \<and>
          (knownServices (fst (onResponse daprClient ?packet)) ''svcA'' = None \<or>
           knownServices (fst (onResponse daprClient ?packet)) ''svcA'' = knownServices daprClient ''svcA'')"
    using T[THEN conjunct2, THEN conjunct2, THEN conjunct2, THEN conjunct1, rule_format, OF c3] .
  have c4': "knownServices (fst (onResponse daprClient ?packet)) ''svcA'' = None"
    using c4 by (auto simp: daprClient_known)
  have c5: "resolvedRegistry (knownServices (fst (onResponse daprClient ?packet)))"
    using T[THEN conjunct2, THEN conjunct2, THEN conjunct2, THEN conjunct2, THEN conjunct1,
        rule_format, OF inv] .
  have reg: "knownServices (fst (onResponse daprClient ?announce)) ''svcA'' = Some svcA"
    by (simp add: onResponse_announce)
  have "knownServices daprClient ''svcA'' = Some svcA \<or> (fqdn svcA \<noteq> '''' \<and> name svcA = ''svcA'')"
    using U[THEN conjunct1, rule_format, OF reg] .
  then have c1: "fqdn svcA \<noteq> ''''"
    by (simp add: daprClient_known)
  from nosrv c3 c4 c4' inv c5 reg c1 show ?thesis by blast
qed

lemma goodbye_of_unknown_plain_name:
  assumes "knownServices c n = None" and "n \<notin> set objectPrototype"
    and "\<not> (\<exists>a \<in> set (answers packet). Some (answer_name a) = type c \<and> answer_data a = PTR n \<and> answer_ttl a \<noteq> 0)"
  shows "onResponse c packet =
           onResponse c (packet\<lparr>answers :=
             filter (\<lambda>b. \<not> (Some (answer_name b) = type c \<and> answer_data b = PTR n \<and> answer_ttl b = 0))
               (answers packet)\<rparr>)
       \<and> knownServices (fst (onResponse c packet)) n = None"
proof -
  have "lookup (knownServices c) n = None" using assms(1,2) by (simp add: lookup_None_iff)
  then show ?thesis using assms(3) by (rule onResponse_without_goodbye)
qed

text \<open>
  Claim C5 says that a pointer record of zero TTL for a name that is not in the registry
  fires nothing and changes nothing.  The code tests what the read of the registry finds,
  and for the name of a member of \<open>Object.prototype\<close> the read finds that member: a new
  client, whose registry is empty, receives one pointer record of zero TTL for the name
  \<open>constructor\<close> and fires \<open>onServiceDown\<close>, with that member in the place of a service
  record.  The registry is left as it was.  (For every other name the code does what the
  claim says: \<open>downService_absent\<close>, \<open>downLoop_absent\<close> and
  \<open>goodbye_of_unknown_plain_name\<close>.)
\<close>

theorem goodbye_of_inherited_name_fires:
  "knownServices daprClient = Map.empty
 \<and> type daprClient = Some (answer_name ptrDownConstructor)
 \<and> answer_data ptrDownConstructor = PTR ''constructor''
 \<and> answer_ttl ptrDownConstructor = 0
 \<and> snd (onResponse daprClient \<lparr>answers = [ptrDownConstructor]\<rparr>)
     = [ServiceDown (Inherited ''constructor'')]
 \<and> knownServices (fst (onResponse daprClient \<lparr>answers = [ptrDownConstructor]\<rparr>)) = Map.empty"
proof -
  have input: "type daprClient = Some (answer_name ptrDownConstructor)"
      "answer_data ptrDownConstructor = PTR ''constructor''" "answer_ttl ptrDownConstructor = 0"
    by (simp_all add: daprClient_type ptrDownConstructor_def)
  have fired: "snd (onResponse daprClient \<lparr>answers = [ptrDownConstructor]\<rparr>)
      = [ServiceDown (Inherited ''constructor'')]"
    by (simp add: onResponse_constructor_goodbye)
  have kept: "knownServices (fst (onResponse daprClient \<lparr>answers = [ptrDownConstructor]\<rparr>)) = Map.empty"
    by (simp add: onResponse_constructor_goodbye)
  show ?thesis using daprClient_known input fired kept by blast
qed

section \<open>Properties of the mDNS-based provider\<close>

subsection \<open>Splitting and parsing, evaluated\<close>

lemma parseInt_3501: "parseInt ''3501'' = Num 3501"
  by (simp add: parseInt_def signOf_def isWhiteSpace_def isDigit_def decimal_def digitValue_def)

lemma parseInt_abc: "parseInt ''abc'' = NaN"
  by (simp add: parseInt_def signOf_def isWhiteSpace_def isDigit_def)

lemma parseInt_minus5: "parseInt ''-5'' = Num (- 5)"
  by (simp add: parseInt_def signOf_def isWhiteSpace_def isDigit_def decimal_def digitValue_def)

lemma split_appId: "split CHR ''='' ''appId=myapp'' = [''appId'', ''myapp'']"
  by simp

lemma split_httpPort: "split CHR ''='' ''httpPort=3501'' = [''httpPort'', ''3501'']"
  by simp

lemma split_httpPort_abc: "split CHR ''='' ''httpPort=abc'' = [''httpPort'', ''abc'']"
  by simp

lemma split_httpPort_minus5: "split CHR ''='' ''httpPort=-5'' = [''httpPort'', ''-5'']"
  by simp

lemma toApplicationMdns_svcA: "toApplicationMdns svcA = Some appA"
  by (simp add: toApplicationMdns_def parsedText_def findValue_def svcA_def appA_def parseInt_3501)

subsection \<open>The two listeners\<close>

lemma findIndex_ge: "findIndex P xs \<noteq> - 1 \<Longrightarrow> 0 \<le> findIndex P xs \<and> findIndex P xs < int (length xs)"
  by (induction xs) (auto split: if_splits)

lemma findIndex_none: "findIndex P xs = - 1 \<longleftrightarrow> (\<forall>x \<in> set xs. \<not> P x)"
proof (induction xs)
  case Nil
  then show ?case by simp
next
  case (Cons x xs)
  have "findIndex P xs \<noteq> - 1 \<Longrightarrow> findIndex P xs + 1 \<noteq> - 1"
    using findIndex_ge[of P xs] by simp
  then show ?case using Cons by auto
qed

lemma findIndex_first:
  "findIndex P xs \<noteq> - 1 \<Longrightarrow>
     P (xs ! nat (findIndex P xs)) \<and> (\<forall>j < nat (findIndex P xs). \<not> P (xs ! j))"
proof (induction xs)
  case Nil
  then show ?case by simp
next
  case (Cons x xs)
  show ?case
  proof (cases "P x")
    case True
    then show ?thesis by simp
  next
    case False
    then have ne: "findIndex P xs \<noteq> - 1" using Cons.prems by (auto split: if_splits)
    then have ge: "0 \<le> findIndex P xs" using findIndex_ge[of P xs] by simp
    have eq: "nat (findIndex P (x # xs)) = Suc (nat (findIndex P xs))"
      using False ne ge by (simp add: nat_add_distrib)
    have "\<forall>j < Suc (nat (findIndex P xs)). \<not> P ((x # xs) ! j)"
      using Cons.IH[OF ne] False by (auto simp: less_Suc_eq_0_disj)
    then show ?thesis using Cons.IH[OF ne] eq by simp
  qed
qed

lemma splice_index: "0 \<le> i \<Longrightarrow> i < int (length xs) \<Longrightarrow> splice i xs = take (nat i) xs"
  by (simp add: splice_def min_def)

text \<open>What the down listener does when the application is in the list: the list is cut
  at the matched index, and the change event is fired twice.\<close>

lemma downListener_match:
  assumes "toApplicationMdns service = Some application"
    and "findIndex (\<lambda>a. appId a = appId application) (applications p) \<noteq> - 1"
  shows "applications (downListener p service) =
           take (nat (findIndex (\<lambda>a. appId a = appId application) (applications p))) (applications p)
       \<and> changes (downListener p service) = changes p + 2"
  using assms findIndex_ge[of "\<lambda>a. appId a = appId application" "applications p"]
  by (simp add: downListener_def fire_def splice_index)

lemma downListener_no_match:
  assumes "toApplicationMdns service = None \<or>
           (\<exists>application. toApplicationMdns service = Some application \<and>
              findIndex (\<lambda>a. appId a = appId application) (applications p) = - 1)"
  shows "applications (downListener p service) = applications p
       \<and> changes (downListener p service) = changes p + 1"
  using assms by (auto simp: downListener_def fire_def)

lemma upListener_fires_once:
  assumes "toApplicationMdns service = Some application"
  shows "changes (upListener p service) = changes p + 1
       \<and> applications (upListener p service) =
           (if findIndex (\<lambda>a. appId a = appId application) (applications p) \<noteq> - 1
            then (applications p)[nat (findIndex (\<lambda>a. appId a = appId application) (applications p)) := application]
            else applications p @ [application])"
  using assms by (simp add: upListener_def fire_def)

lemma upListener_ignores:
  "toApplicationMdns service = None \<Longrightarrow> upListener p service = p"
  by (simp add: upListener_def)

text \<open>
  Claim C6 fails on the code.  With two applications listed and a down event for the
  first, the listener's \<open>splice(index)\<close> deletes from the matched index to the end: the
  list becomes empty, where deleting the one matched element would leave the second
  application.
\<close>

theorem downListener_truncates:
  "toApplicationMdns svcA = Some appA
 \<and> findIndex (\<lambda>a. appId a = appId appA) [appA, appB] = 0
 \<and> applications (downListener \<lparr>applications = [appA, appB], changes = 0\<rparr> svcA) = []
 \<and> removeAt 0 [appA, appB] = [appB]"
proof -
  have i: "findIndex (\<lambda>a. appId a = appId appA) [appA, appB] = 0"
    by (simp add: appA_def)
  have "applications (downListener \<lparr>applications = [appA, appB], changes = 0\<rparr> svcA) = []"
    using downListener_match[OF toApplicationMdns_svcA, of "\<lparr>applications = [appA, appB], changes = 0\<rparr>"] i
    by simp
  then show ?thesis
    using i by (simp add: toApplicationMdns_svcA removeAt_def)
qed

text \<open>
  Claim C7 fails on the code for a down event.  A down event that removes the
  application fires the change event twice: once inside the branch that removes, and
  once more at the end of the listener, which fires in every case.  (An up event that
  inserts fires it once, as the claim says.)
\<close>

theorem downListener_fires_twice:
  "applications (downListener \<lparr>applications = [appA], changes = 0\<rparr> svcA) = []
 \<and> changes (downListener \<lparr>applications = [appA], changes = 0\<rparr> svcA) = 2
 \<and> applications (upListener \<lparr>applications = [], changes = 0\<rparr> svcA) = [appA]
 \<and> changes (upListener \<lparr>applications = [], changes = 0\<rparr> svcA) = 1"
proof -
  have i: "findIndex (\<lambda>a. appId a = appId appA) [appA] = 0"
    by simp
  have d: "applications (downListener \<lparr>applications = [appA], changes = 0\<rparr> svcA) = []
      \<and> changes (downListener \<lparr>applications = [appA], changes = 0\<rparr> svcA) = 2"
    using downListener_match[OF toApplicationMdns_svcA, of "\<lparr>applications = [appA], changes = 0\<rparr>"] i
    by simp
  have u: "applications (upListener \<lparr>applications = [], changes = 0\<rparr> svcA) = [appA]
      \<and> changes (upListener \<lparr>applications = [], changes = 0\<rparr> svcA) = 1"
    using upListener_fires_once[OF toApplicationMdns_svcA, of "\<lparr>applications = [], changes = 0\<rparr>"]
    by simp
  show ?thesis using d u by blast
qed

subsection \<open>From TXT entries to an application\<close>

lemma split_not_Nil: "split sep s \<noteq> []"
  by (induction s) (auto split: list.splits)

lemma split_Cons_other:
  "c \<noteq> sep \<Longrightarrow> split sep (c # cs) = (c # hd (split sep cs)) # tl (split sep cs)"
  using split_not_Nil[of sep cs] by (cases "split sep cs") auto

lemma split_single: "split sep s = [v] \<longleftrightarrow> s = v \<and> sep \<notin> set v"
proof (induction s arbitrary: v)
  case Nil
  then show ?case by auto
next
  case (Cons c cs)
  show ?case
  proof (cases "c = sep")
    case True
    then show ?thesis using split_not_Nil[of sep cs] by auto
  next
    case False
    have "split sep (c # cs) = [v] \<longleftrightarrow> (\<exists>p. split sep cs = [p] \<and> v = c # p)"
      using False split_not_Nil[of sep cs] by (cases "split sep cs") auto
    also have "\<dots> \<longleftrightarrow> (\<exists>p. cs = p \<and> sep \<notin> set p \<and> v = c # p)"
      using Cons.IH by simp
    also have "\<dots> \<longleftrightarrow> c # cs = v \<and> sep \<notin> set v"
      using False by auto
    finally show ?thesis .
  qed
qed

lemma split_pair: "split sep t = [k, v] \<longleftrightarrow> t = k @ sep # v \<and> sep \<notin> set k \<and> sep \<notin> set v"
proof (induction t arbitrary: k)
  case Nil
  then show ?case by auto
next
  case (Cons c cs)
  show ?case
  proof (cases "c = sep")
    case True
    have "split sep (c # cs) = [k, v] \<longleftrightarrow> k = [] \<and> split sep cs = [v]"
      using True by auto
    also have "\<dots> \<longleftrightarrow> k = [] \<and> cs = v \<and> sep \<notin> set v"
      using split_single[of sep cs v] by simp
    also have "\<dots> \<longleftrightarrow> c # cs = k @ sep # v \<and> sep \<notin> set k \<and> sep \<notin> set v"
      using True by (cases k) auto
    finally show ?thesis .
  next
    case False
    have "split sep (c # cs) = [k, v] \<longleftrightarrow> (\<exists>p. split sep cs = [p, v] \<and> k = c # p)"
      using False split_not_Nil[of sep cs] by (cases "split sep cs") auto
    also have "\<dots> \<longleftrightarrow> (\<exists>p. cs = p @ sep # v \<and> sep \<notin> set p \<and> sep \<notin> set v \<and> k = c # p)"
      using Cons.IH by simp
    also have "\<dots> \<longleftrightarrow> c # cs = k @ sep # v \<and> sep \<notin> set k \<and> sep \<notin> set v"
      using False by (cases k) auto
    finally show ?thesis .
  qed
qed

lemma length_two: "length xs = 2 \<longleftrightarrow> (\<exists>k v. xs = [k, v])"
  by (cases xs; cases "tl xs"; cases "tl (tl xs)") auto

lemma isEntryOf_split:
  assumes "CHR ''='' \<notin> set key"
  shows "isEntryOf key t \<longleftrightarrow> (\<exists>v. split CHR ''='' t = [key, v])"
proof
  assume "isEntryOf key t"
  then obtain r where r: "t = (key @ ''='') @ r" and v: "CHR ''='' \<notin> set (drop (Suc (length key)) t)"
    by (auto simp: isEntryOf_def prefix_def)
  have "drop (Suc (length key)) t = r" using r by simp
  then have "t = key @ CHR ''='' # r \<and> CHR ''='' \<notin> set r" using r v by simp
  then show "\<exists>v. split CHR ''='' t = [key, v]" using assms split_pair[of "CHR ''=''" t key r] by blast
next
  assume "\<exists>v. split CHR ''='' t = [key, v]"
  then obtain v where "split CHR ''='' t = [key, v]" by blast
  then have "t = key @ CHR ''='' # v \<and> CHR ''='' \<notin> set v"
    using split_pair[of "CHR ''=''" t key v] by blast
  then show "isEntryOf key t" by (simp add: isEntryOf_def prefix_def)
qed

lemma split_entry_value:
  "split CHR ''='' t = [key, v] \<Longrightarrow> drop (Suc (length key)) t = v"
  using split_pair[of "CHR ''=''" t key v] by simp

lemma findValue_entryValue:
  assumes "CHR ''='' \<notin> set key"
  shows "findValue key (parsedText es) = entryValue key es"
proof (induction es)
  case Nil
  then show ?case by (simp add: findValue_def parsedText_def entryValue_def)
next
  case (Cons t ts)
  have IH: "findValue key (parsedText ts) = entryValue key ts" by (rule Cons.IH)
  show ?case
  proof (cases "isEntryOf key t")
    case True
    then obtain v where v: "split CHR ''='' t = [key, v]"
      using isEntryOf_split[OF assms, of t] by blast
    have "findValue key (parsedText (t # ts)) = Some v"
      using v by (simp add: findValue_def parsedText_def)
    moreover have "entryValue key (t # ts) = Some v"
      using True split_entry_value[OF v] by (simp add: entryValue_def)
    ultimately show ?thesis by simp
  next
    case False
    have skip: "findValue key (parsedText (t # ts)) = findValue key (parsedText ts)"
    proof (cases "length (split CHR ''='' t) = 2")
      case True
      then obtain k v where kv: "split CHR ''='' t = [k, v]"
        using length_two[of "split CHR ''='' t", THEN iffD1] by blast
      then have "k \<noteq> key" using False isEntryOf_split[OF assms, of t] by auto
      then show ?thesis using kv by (simp add: findValue_def parsedText_def)
    next
      case False
      then show ?thesis by (simp add: findValue_def parsedText_def)
    qed
    have "entryValue key (t # ts) = entryValue key ts"
      using False by (simp add: entryValue_def)
    then show ?thesis using skip IH by simp
  qed
qed

text \<open>
  Claim C8 as it is stated fails: a value of \<open>httpPort\<close> that does not parse gives a
  descriptor all the same, with the port \<open>NaN\<close>, and a negative value gives a descriptor
  with a negative port.
\<close>

theorem toApplicationMdns_unparsed_port:
  "toApplicationMdns (svcA\<lparr>text := [''appId=myapp'', ''httpPort=abc'']\<rparr>)
     = Some \<lparr>appId = ''myapp'', httpPort = NaN, pid = None\<rparr>
 \<and> toApplicationMdns (svcA\<lparr>text := [''appId=myapp'', ''httpPort=-5'']\<rparr>)
     = Some \<lparr>appId = ''myapp'', httpPort = Num (- 5), pid = None\<rparr>"
  by (simp add: toApplicationMdns_def parsedText_def findValue_def svcA_def
      parseInt_abc parseInt_minus5)

text \<open>
  Claim C8, as amended.  Among the TXT entries of the form \<open>key=value\<close> with no further
  \<open>=\<close> in the value, take the first for the key \<open>appId\<close> and the first for the key
  \<open>httpPort\<close>.  A descriptor is produced exactly when both exist and both values are
  non-empty; it holds the \<open>appId\<close> value and \<open>parseInt\<close> of the \<open>httpPort\<close> value
  (whatever that is: \<open>NaN\<close> or a negative number included), and no \<open>pid\<close>.  In every
  other case the result is \<open>undefined\<close>; nothing is thrown in any case.
\<close>

theorem toApplicationMdns_entries:
  "toApplicationMdns service =
     (case entryValue ''appId'' (text service) of
        None \<Rightarrow> None
      | Some a \<Rightarrow>
          (case entryValue ''httpPort'' (text service) of
             None \<Rightarrow> None
           | Some p \<Rightarrow>
               if a \<noteq> '''' \<and> p \<noteq> ''''
               then Some \<lparr>appId = a, httpPort = parseInt p, pid = None\<rparr>
               else None))
 \<and> ((\<exists>app. toApplicationMdns service = Some app) \<longleftrightarrow>
      (\<exists>a p. entryValue ''appId'' (text service) = Some a \<and> a \<noteq> '''' \<and>
             entryValue ''httpPort'' (text service) = Some p \<and> p \<noteq> ''''))"
proof -
  have a: "findValue ''appId'' (parsedText (text service)) = entryValue ''appId'' (text service)"
    by (rule findValue_entryValue) simp
  have p: "findValue ''httpPort'' (parsedText (text service)) = entryValue ''httpPort'' (text service)"
    by (rule findValue_entryValue) simp
  show ?thesis
    unfolding toApplicationMdns_def a p
    by (auto split: option.splits)
qed

theorem toApplicationMdns_entries_witness:
  "entryValue ''appId'' (text svcA) = Some ''myapp''
 \<and> entryValue ''httpPort'' (text svcA) = Some ''3501''
 \<and> toApplicationMdns svcA = Some \<lparr>appId = ''myapp'', httpPort = Num 3501, pid = None\<rparr>
 \<and> entryValue ''httpPort'' [''appId=myapp''] = None
 \<and> toApplicationMdns (svcA\<lparr>text := [''appId=myapp'']\<rparr>) = None"
proof -
  have a: "entryValue ''appId'' (text svcA) = Some ''myapp''"
    by (simp add: entryValue_def isEntryOf_def svcA_def)
  have p: "entryValue ''httpPort'' (text svcA) = Some ''3501''"
    by (simp add: entryValue_def isEntryOf_def svcA_def)
  have n: "entryValue ''httpPort'' [''appId=myapp''] = None"
    by (simp add: entryValue_def isEntryOf_def)
  have n': "entryValue ''httpPort'' (text (svcA\<lparr>text := [''appId=myapp'']\<rparr>)) = None"
    using n by simp
  have t1: "toApplicationMdns svcA = Some \<lparr>appId = ''myapp'', httpPort = Num 3501, pid = None\<rparr>"
    using toApplicationMdns_entries[of svcA, THEN conjunct1] unfolding a p
    by (simp add: parseInt_3501)
  have t2: "toApplicationMdns (svcA\<lparr>text := [''appId=myapp'']\<rparr>) = None"
    using toApplicationMdns_entries[of "svcA\<lparr>text := [''appId=myapp'']\<rparr>", THEN conjunct1]
    unfolding n' by (simp split: option.splits)
  from a p t1 n t2 show ?thesis by blast
qed

section \<open>Properties of the process-based provider\<close>

subsection \<open>The regular expressions\<close>

lemma exec_Some_suffix:
  "exec m s = Some g \<Longrightarrow> \<exists>pre post. s = pre @ post \<and> m post = Some g"
proof (induction s)
  case Nil
  then show ?case by simp
next
  case (Cons c cs)
  show ?case
  proof (cases "m (c # cs)")
    case None
    then have "exec m cs = Some g" using Cons.prems by simp
    then obtain pre post where "cs = pre @ post" "m post = Some g" using Cons.IH by blast
    then have "c # cs = (c # pre) @ post \<and> m post = Some g" by simp
    then show ?thesis by blast
  next
    case (Some h)
    then have "c # cs = [] @ (c # cs) \<and> m (c # cs) = Some g" using Cons.prems by simp
    then show ?thesis by blast
  qed
qed

lemma exec_None_suffix:
  "exec m s = None \<Longrightarrow> s = pre @ post \<Longrightarrow> m post = None"
proof (induction s arbitrary: pre)
  case Nil
  then show ?case by simp
next
  case (Cons c cs)
  have here: "m (c # cs) = None" and rest: "exec m cs = None"
    using Cons.prems(1) by (auto split: option.splits)
  show ?case
  proof (cases pre)
    case Nil
    then show ?thesis using Cons.prems(2) here by simp
  next
    case (Cons c' pre')
    then have "cs = pre' @ post" using Cons.prems(2) by simp
    then show ?thesis using Cons.IH[OF rest] by blast
  qed
qed

lemma matchHere_prefix: "matchHere flag cls s = Some g \<Longrightarrow> prefix flag s"
  by (simp add: matchHere_def split: if_splits)

lemma exec_matchHere_sublist:
  assumes "exec (matchHere flag cls) s = Some g"
  shows "sublist flag s"
proof -
  obtain pre post where s: "s = pre @ post" and m: "matchHere flag cls post = Some g"
    using exec_Some_suffix[OF assms] by blast
  obtain r where "post = flag @ r" using matchHere_prefix[OF m] by (auto simp: prefix_def)
  then show ?thesis using s by (auto simp: sublist_def)
qed

lemma sublist_shorter: "sublist (w @ u) s \<Longrightarrow> sublist w s"
  by (auto simp: sublist_def)

lemma takeWhile_nonempty: "takeWhile P xs \<noteq> [] \<longleftrightarrow> (\<exists>c rest. xs = c # rest \<and> P c)"
  by (cases xs) auto

lemma matchHere_iff:
  assumes "\<not> cls (CHR 0x22)"
  shows "matchHere flag cls s \<noteq> None \<longleftrightarrow>
           (\<exists>c rest. cls c \<and> (s = flag @ c # rest \<or> s = flag @ CHR 0x22 # c # rest))"
proof (cases "prefix flag s")
  case False
  then show ?thesis by (auto simp: matchHere_def prefix_def)
next
  case True
  then obtain r where r: "s = flag @ r" by (auto simp: prefix_def)
  show ?thesis
  proof (cases r)
    case Nil
    then show ?thesis using r by (simp add: matchHere_def optionalQuote_def)
  next
    case (Cons q t)
    show ?thesis
    proof (cases "q = CHR 0x22")
      case True
      have "matchHere flag cls s \<noteq> None \<longleftrightarrow> takeWhile cls t \<noteq> []"
        using r Cons True assms by (simp add: matchHere_def optionalQuote_def)
      also have "\<dots> \<longleftrightarrow> (\<exists>c rest. t = c # rest \<and> cls c)"
        by (rule takeWhile_nonempty)
      also have "\<dots> \<longleftrightarrow> (\<exists>c rest. cls c \<and> (s = flag @ c # rest \<or> s = flag @ CHR 0x22 # c # rest))"
        using r Cons True assms by auto
      finally show ?thesis .
    next
      case False
      have "matchHere flag cls s \<noteq> None \<longleftrightarrow> takeWhile cls r \<noteq> []"
        using r Cons False by (simp add: matchHere_def optionalQuote_def)
      also have "\<dots> \<longleftrightarrow> (\<exists>c rest. r = c # rest \<and> cls c)"
        by (rule takeWhile_nonempty)
      also have "\<dots> \<longleftrightarrow> (\<exists>c rest. cls c \<and> (s = flag @ c # rest \<or> s = flag @ CHR 0x22 # c # rest))"
        using r Cons False by auto
      finally show ?thesis .
    qed
  qed
qed

lemma exec_iff:
  "exec m s \<noteq> None \<longleftrightarrow> (\<exists>pre post. s = pre @ post \<and> m post \<noteq> None)"
proof
  assume "exec m s \<noteq> None"
  then obtain g where "exec m s = Some g" by auto
  then show "\<exists>pre post. s = pre @ post \<and> m post \<noteq> None"
    using exec_Some_suffix[of m s g] by auto
next
  assume "\<exists>pre post. s = pre @ post \<and> m post \<noteq> None"
  then obtain pre post where "s = pre @ post" "m post \<noteq> None" by blast
  then show "exec m s \<noteq> None" using exec_None_suffix[of m s pre post] by blast
qed

lemma getAppId_iff:
  "getAppId cmd \<noteq> None \<longleftrightarrow>
     (\<exists>pre c post. isAppIdChar c \<and>
        (cmd = pre @ ''--app-id '' @ c # post \<or> cmd = pre @ ''--app-id '' @ CHR 0x22 # c # post))"
proof -
  have q: "\<not> isAppIdChar (CHR 0x22)" by (simp add: isAppIdChar_def)
  show ?thesis
    unfolding getAppId_def exec_iff matchHere_iff[where cls = isAppIdChar, OF q] by blast
qed

lemma getAppId_nonempty: "getAppId cmd = Some a \<Longrightarrow> a \<noteq> ''''"
proof -
  assume "getAppId cmd = Some a"
  then obtain pre post where "matchHere ''--app-id '' isAppIdChar post = Some a"
    using exec_Some_suffix[of "matchHere ''--app-id '' isAppIdChar" cmd a] by (auto simp: getAppId_def)
  then have "find (\<lambda>g. g \<noteq> []) (map (takeWhile isAppIdChar) (optionalQuote (drop (length ''--app-id '') post))) = Some a"
    by (simp add: matchHere_def split: if_splits)
  then show "a \<noteq> ''''" by (auto simp: find_Some_iff)
qed

lemma getAppId_needs_flag: "\<not> sublist ''--app-id'' cmd \<Longrightarrow> getAppId cmd = None"
proof (rule ccontr)
  assume no: "\<not> sublist ''--app-id'' cmd" and "getAppId cmd \<noteq> None"
  then obtain g where "exec (matchHere ''--app-id '' isAppIdChar) cmd = Some g"
    by (auto simp: getAppId_def)
  then have "sublist (''--app-id'' @ '' '') cmd"
    using exec_matchHere_sublist[of "''--app-id ''" isAppIdChar cmd g] by simp
  then show False using no sublist_shorter by blast
qed

lemma getHttpPort_default: "\<not> sublist ''--dapr-http-port'' cmd \<Longrightarrow> getHttpPort cmd = Num 3500"
proof -
  assume no: "\<not> sublist ''--dapr-http-port'' cmd"
  have "exec (matchHere ''--dapr-http-port '' isDigit) cmd = None"
  proof (rule ccontr)
    assume "exec (matchHere ''--dapr-http-port '' isDigit) cmd \<noteq> None"
    then obtain g where "exec (matchHere ''--dapr-http-port '' isDigit) cmd = Some g" by auto
    then have "sublist (''--dapr-http-port'' @ '' '') cmd"
      using exec_matchHere_sublist[of "''--dapr-http-port ''" isDigit cmd g] by simp
    then show False using no sublist_shorter by blast
  qed
  then show ?thesis by (simp add: getHttpPort_def)
qed

subsection \<open>Command lines, evaluated\<close>

lemma getAppId_ordersCmd: "getAppId ordersCmd = Some ''orders''"
  by (simp add: getAppId_def ordersCmd_def matchHere_def optionalQuote_def isAppIdChar_def)

lemma getHttpPort_ordersCmd: "getHttpPort ordersCmd = Num 3600"
  by (simp add: getHttpPort_def ordersCmd_def matchHere_def optionalQuote_def isDigit_def
      parseInt_def signOf_def isWhiteSpace_def decimal_def digitValue_def)

lemma getAppId_plainCmd: "getAppId plainCmd = Some ''orders''"
  by (simp add: getAppId_def plainCmd_def matchHere_def optionalQuote_def isAppIdChar_def)

lemma getAppId_equalsCmd: "getAppId equalsCmd = None"
  by (simp add: getAppId_def equalsCmd_def matchHere_def optionalQuote_def isAppIdChar_def)

lemma sublist_equalsCmd: "sublist ''--app-id'' equalsCmd"
  by (simp add: equalsCmd_def sublist_code)

lemma no_port_equalsCmd: "\<not> sublist ''--dapr-http-port'' equalsCmd"
  by (simp add: equalsCmd_def sublist_code)

lemma no_port_plainCmd: "\<not> sublist ''--dapr-http-port'' plainCmd"
  by (simp add: plainCmd_def sublist_code)

lemma no_appId_portOnlyCmd: "\<not> sublist ''--app-id'' portOnlyCmd"
  by (simp add: portOnlyCmd_def sublist_code)

subsection \<open>The claim about command lines\<close>

text \<open>
  Claim C9 as it is stated fails in its third part: a line can contain the flag
  \<open>--app-id\<close>, lack \<open>--dapr-http-port\<close>, and still yield no descriptor, because the
  expression wants the flag followed by one space and a value.  The line
  \<open>daprd --app-id=orders\<close> is such a line.
\<close>

theorem toApplication_flag_without_value:
  "sublist ''--app-id'' equalsCmd
 \<and> \<not> sublist ''--dapr-http-port'' equalsCmd
 \<and> toApplication (Some equalsCmd) 7 = None"
proof -
  have "toApplication (Some equalsCmd) 7 = None"
    by (simp add: toApplication_def getAppId_equalsCmd)
  then show ?thesis using sublist_equalsCmd no_port_equalsCmd by blast
qed

text \<open>
  Claim C9, as amended.  The line \<open>daprd --app-id "orders" --dapr-http-port "3600"\<close>
  yields the descriptor with \<open>appId\<close> \<open>orders\<close> and \<open>httpPort\<close> 3600 (and the process
  id).  A line in which \<open>--app-id\<close> does not occur yields no descriptor.  A line in
  which the expression for the application id matches and in which \<open>--dapr-http-port\<close>
  does not occur yields a descriptor with the matched id and \<open>httpPort\<close> 3500.  The
  expression matches exactly when the line contains \<open>--app-id\<close>, one space, and then a
  character of \<open>[a-zA-Z0-9_-]\<close>, directly or after one double quote.  A process
  with no command line yields no descriptor.
\<close>

theorem toApplication_command_lines:
  "toApplication (Some ordersCmd) processId
     = Some \<lparr>appId = ''orders'', httpPort = Num 3600, pid = Some processId\<rparr>
 \<and> (\<not> sublist ''--app-id'' cmd \<longrightarrow> toApplication (Some cmd) processId = None)
 \<and> (getAppId cmd = Some a \<and> \<not> sublist ''--dapr-http-port'' cmd \<longrightarrow>
       toApplication (Some cmd) processId
         = Some \<lparr>appId = a, httpPort = Num 3500, pid = Some processId\<rparr>)
 \<and> (getAppId cmd \<noteq> None \<longleftrightarrow>
       (\<exists>pre c post. isAppIdChar c \<and>
          (cmd = pre @ ''--app-id '' @ c # post \<or>
           cmd = pre @ ''--app-id '' @ CHR 0x22 # c # post)))
 \<and> toApplication None processId = None"
proof -
  have none: "toApplication None processId = None"
    by (simp add: toApplication_def)
  have one: "toApplication (Some ordersCmd) processId
      = Some \<lparr>appId = ''orders'', httpPort = Num 3600, pid = Some processId\<rparr>"
    by (simp add: toApplication_def getAppId_ordersCmd getHttpPort_ordersCmd) (simp add: ordersCmd_def)
  have two: "\<not> sublist ''--app-id'' cmd \<longrightarrow> toApplication (Some cmd) processId = None"
    using getAppId_needs_flag[of cmd] by (simp add: toApplication_def)
  have nonempty: "getAppId cmd = Some a \<Longrightarrow> cmd \<noteq> ''''"
    by (auto simp: getAppId_def matchHere_def)
  have three: "getAppId cmd = Some a \<and> \<not> sublist ''--dapr-http-port'' cmd \<longrightarrow>
       toApplication (Some cmd) processId
         = Some \<lparr>appId = a, httpPort = Num 3500, pid = Some processId\<rparr>"
    using getAppId_nonempty[of cmd a] getHttpPort_default[of cmd] nonempty
    by (simp add: toApplication_def)
  show ?thesis using one two three getAppId_iff[of cmd] none by blast
qed

theorem toApplication_command_lines_witness:
  "\<not> sublist ''--app-id'' portOnlyCmd
 \<and> toApplication (Some portOnlyCmd) 7 = None
 \<and> getAppId plainCmd = Some ''orders''
 \<and> \<not> sublist ''--dapr-http-port'' plainCmd
 \<and> toApplication (Some plainCmd) 7 = Some \<lparr>appId = ''orders'', httpPort = Num 3500, pid = Some 7\<rparr>
 \<and> toApplication (Some ordersCmd) 7 = Some \<lparr>appId = ''orders'', httpPort = Num 3600, pid = Some 7\<rparr>"
proof -
  note T = toApplication_command_lines[of 7 portOnlyCmd "''orders''"]
  note U = toApplication_command_lines[of 7 plainCmd "''orders''"]
  have t0: "toApplication (Some ordersCmd) 7 = Some \<lparr>appId = ''orders'', httpPort = Num 3600, pid = Some 7\<rparr>"
    using T[THEN conjunct1] .
  have t1: "toApplication (Some portOnlyCmd) 7 = None"
    using T[THEN conjunct2, THEN conjunct1, THEN mp, OF no_appId_portOnlyCmd] .
  have t2: "toApplication (Some plainCmd) 7 = Some \<lparr>appId = ''orders'', httpPort = Num 3500, pid = Some 7\<rparr>"
    using U[THEN conjunct2, THEN conjunct2, THEN conjunct1, THEN mp,
        OF conjI[OF getAppId_plainCmd no_port_plainCmd]] .
  from no_appId_portOnlyCmd t1 getAppId_plainCmd no_port_plainCmd t2 t0 show ?thesis by blast
qed

subsection \<open>A refresh that fails\<close>

lemma refreshApplications_stuck:
  "stuck k p \<Longrightarrow>
     refreshApplications p = p\<lparr>awaiting := awaiting p @ [k]\<rparr>"
  by (simp add: stuck_def refreshApplications_def)

lemma onRefresh_stuck:
  assumes "stuck k p"
  shows "onRefresh p j answer = p"
proof -
  have "Pending \<notin> set (promises p)" using assms by (simp add: stuck_def)
  then have "\<not> (j < length (promises p) \<and> promises p ! j = Pending)"
    by (metis nth_mem)
  then show ?thesis unfolding onRefresh_def by (rule if_not_P)
qed

lemma resume_stuck:
  assumes "stuck k p" "i < length (awaiting p)"
  shows "resume p i = (p\<lparr>awaiting := take i (awaiting p) @ drop (Suc i) (awaiting p)\<rparr>, Threw)"
proof -
  have "\<forall>w \<in> set (awaiting p). w = k" using assms(1) by (simp add: stuck_def)
  then have wk: "awaiting p ! i = k" using assms(2) by (metis nth_mem)
  have k: "k < length (promises p)" "promises p ! k = Rejected"
    using assms(1) by (simp_all add: stuck_def)
  show ?thesis using assms(2) k by (simp add: resume_def wk)
qed

lemma resume_out_of_range: "\<not> i < length (awaiting p) \<Longrightarrow> resume p i = (p, Suspended)"
  by (simp add: resume_def)

lemma stuck_awaiting: "stuck k p \<Longrightarrow> set ws \<subseteq> {k} \<Longrightarrow> stuck k (p\<lparr>awaiting := ws\<rparr>)"
  by (auto simp: stuck_def)

lemma set_remove_nth: "set (take i xs @ drop (Suc i) xs) \<subseteq> set xs"
  by (auto dest: in_set_takeD in_set_dropD)

lemma step_stuck:
  assumes "stuck k p"
  shows "stuck k (step p a) \<and> currentRefresh (step p a) = Some k \<and> promises (step p a) = promises p
       \<and> listed (step p a) = listed p \<and> changed (step p a) = changed p"
proof -
  have ws: "set (awaiting p) \<subseteq> {k}" using assms by (auto simp: stuck_def)
  have cur: "currentRefresh p = Some k" using assms by (simp add: stuck_def)
  have more: "stuck k (p\<lparr>awaiting := awaiting p @ [k]\<rparr>)"
    using stuck_awaiting[OF assms, of "awaiting p @ [k]"] ws by simp
  show ?thesis
  proof (cases a)
    case Tick
    then show ?thesis using more cur by (simp add: refreshApplications_stuck[OF assms])
  next
    case (GetApplications refresh)
    then show ?thesis using more cur assms
      by (simp add: getApplications_def refreshApplications_stuck[OF assms])
  next
    case (Listed j processes)
    then show ?thesis using assms cur by (simp add: onRefresh_stuck[OF assms])
  next
    case (ListFailed j)
    then show ?thesis using assms cur by (simp add: onRefresh_stuck[OF assms])
  next
    case (Resume i)
    show ?thesis
    proof (cases "i < length (awaiting p)")
      case True
      have "set (take i (awaiting p) @ drop (Suc i) (awaiting p)) \<subseteq> {k}"
        using ws set_remove_nth[of i "awaiting p"] by blast
      then have "stuck k (p\<lparr>awaiting := take i (awaiting p) @ drop (Suc i) (awaiting p)\<rparr>)"
        by (rule stuck_awaiting[OF assms])
      then show ?thesis using Resume cur by (simp add: resume_stuck[OF assms True])
    next
      case False
      then show ?thesis using Resume assms cur by (simp add: resume_out_of_range)
    qed
  qed
qed

lemma run_stuck:
  "stuck k p \<Longrightarrow>
     stuck k (foldl step p as) \<and> currentRefresh (foldl step p as) = Some k
   \<and> promises (foldl step p as) = promises p \<and> listed (foldl step p as) = listed p
   \<and> changed (foldl step p as) = changed p"
proof (induction as arbitrary: p)
  case Nil
  then show ?case by (simp add: stuck_def)
next
  case (Cons a as)
  have s: "stuck k (step p a) \<and> currentRefresh (step p a) = Some k \<and> promises (step p a) = promises p
       \<and> listed (step p a) = listed p \<and> changed (step p a) = changed p"
    using step_stuck[OF Cons.prems] .
  then show ?case using Cons.IH[of "step p a"] by simp
qed

lemma onRefresh_rejects:
  assumes "inFlight k p"
  shows "stuck k (onRefresh p k None) \<and> listed (onRefresh p k None) = listed p
       \<and> changed (onRefresh p k None) = changed p"
proof -
  have k: "k < length (promises p)" "promises p ! k = Pending" "currentRefresh p = Some k"
    using assms by (simp_all add: inFlight_def)
  have others: "\<forall>j < length (promises p). j \<noteq> k \<longrightarrow> promises p ! j \<noteq> Pending"
    using assms by (simp add: inFlight_def)
  have eq: "onRefresh p k None = p\<lparr>promises := (promises p)[k := Rejected]\<rparr>"
    using k by (simp add: onRefresh_def)
  have "Pending \<notin> set ((promises p)[k := Rejected])"
  proof
    assume "Pending \<in> set ((promises p)[k := Rejected])"
    then obtain j where j: "j < length (promises p)" "(promises p)[k := Rejected] ! j = Pending"
      by (auto simp: in_set_conv_nth)
    then show False using others k by (cases "j = k") auto
  qed
  then show ?thesis using assms k by (simp add: eq stuck_def inFlight_def)
qed

lemma quiet_new: "quiet newProvider"
  by (simp add: quiet_def newProvider_def)

lemma refreshApplications_quiet:
  assumes "quiet p"
  shows "inFlight (length (promises p)) (refreshApplications p)"
proof -
  have q: "currentRefresh p = None" "Pending \<notin> set (promises p)" "awaiting p = []"
    using assms by (simp_all add: quiet_def)
  have eq: "refreshApplications p =
      p\<lparr>promises := promises p @ [Pending], currentRefresh := Some (length (promises p)),
        awaiting := awaiting p @ [length (promises p)]\<rparr>"
    using q(1) by (simp add: refreshApplications_def)
  have others: "\<forall>j < length (promises p @ [Pending]). j \<noteq> length (promises p) \<longrightarrow>
      (promises p @ [Pending]) ! j \<noteq> Pending"
  proof (intro allI impI)
    fix j
    assume "j < length (promises p @ [Pending])" "j \<noteq> length (promises p)"
    then have j: "j < length (promises p)" by simp
    then have "(promises p @ [Pending]) ! j = promises p ! j" by (simp add: nth_append)
    moreover have "promises p ! j \<in> set (promises p)" using j by (rule nth_mem)
    ultimately show "(promises p @ [Pending]) ! j \<noteq> Pending" using q(2) by metis
  qed
  show ?thesis
    unfolding eq inFlight_def using others q(3) by simp
qed

lemma refreshApplications_inFlight:
  assumes "inFlight k p"
  shows "inFlight k (refreshApplications p)"
proof -
  have "currentRefresh p = Some k" using assms by (simp add: inFlight_def)
  then have "refreshApplications p = p\<lparr>awaiting := awaiting p @ [k]\<rparr>"
    by (simp add: refreshApplications_def)
  then show ?thesis using assms by (simp add: inFlight_def)
qed

lemma refresh_cycle_quiet:
  assumes "inFlight k p" "awaiting p = [k]"
  shows "quiet (fst (resume (onRefresh p k (Some processes)) 0))"
proof -
  have k: "k < length (promises p)" "promises p ! k = Pending"
    using assms(1) by (simp_all add: inFlight_def)
  have others: "\<forall>j < length (promises p). j \<noteq> k \<longrightarrow> promises p ! j \<noteq> Pending"
    using assms(1) by (simp add: inFlight_def)
  let ?q = "onRefresh p k (Some processes)"
  have pr: "promises ?q = (promises p)[k := Fulfilled]" and aw: "awaiting ?q = [k]"
    using k assms(2) by (simp_all add: onRefresh_def)
  have none: "Pending \<notin> set ((promises p)[k := Fulfilled])"
  proof
    assume "Pending \<in> set ((promises p)[k := Fulfilled])"
    then obtain j where j: "j < length (promises p)" "(promises p)[k := Fulfilled] ! j = Pending"
      by (auto simp: in_set_conv_nth)
    then show False using others k by (cases "j = k") auto
  qed
  have "resume ?q 0 = (?q\<lparr>awaiting := [], currentRefresh := None\<rparr>, Returned)"
    using k by (simp add: resume_def pr aw)
  then show ?thesis using none by (simp add: quiet_def pr)
qed

text \<open>
  Claim C10 as it is stated fails when a call is still suspended on an earlier refresh
  that succeeded.  A first refresh succeeds; a call of \<open>getApplications(true)\<close> arrives
  before the first suspended call has resumed, and awaits the fulfilled promise; the
  first call resumes and clears the marker; a further call starts a second refresh,
  which fails, and at this moment the marker holds the rejected promise.  Then the call
  that awaits the first refresh resumes and clears the marker, and the next tick starts
  a third listing.
\<close>

theorem refresh_failure_cleared:
  "foldl step newProvider
     [Tick, Listed 0 [], GetApplications True, Resume 0, GetApplications True, ListFailed 1]
   = \<lparr>listed = Some [], currentRefresh = Some 1, promises = [Fulfilled, Rejected],
      awaiting = [0, 1], changed = 1\<rparr>
 \<and> foldl step newProvider
     [Tick, Listed 0 [], GetApplications True, Resume 0, GetApplications True, ListFailed 1, Resume 0]
   = \<lparr>listed = Some [], currentRefresh = None, promises = [Fulfilled, Rejected],
      awaiting = [1], changed = 1\<rparr>
 \<and> foldl step newProvider
     [Tick, Listed 0 [], GetApplications True, Resume 0, GetApplications True, ListFailed 1, Resume 0, Tick]
   = \<lparr>listed = Some [], currentRefresh = Some 2, promises = [Fulfilled, Rejected, Pending],
      awaiting = [1, 2], changed = 1\<rparr>"
  by (simp add: newProvider_def refreshApplications_def getApplications_def onRefresh_def resume_def
      List.map_filter_simps)

text \<open>
  Claim C10, as amended.  A refresh started when nothing is going on (no refresh marked,
  no listing pending, no call suspended) is in flight alone: no other listing is pending
  and every suspended call awaits it; a call that joins it leaves it so.  If the
  \<open>listProcesses\<close> of a refresh that is in flight alone rejects, the application list is
  left as it was and nothing is fired, and the provider is stuck: the marker
  \<open>currentRefresh\<close> holds the rejected promise.  From a stuck state, whatever happens
  afterwards and in whatever order (timer ticks, calls of \<open>getApplications\<close>, answers of
  the process lister, resumptions of suspended calls), the provider stays stuck on the
  same promise, no promise is added (no \<open>listProcesses\<close> is started), and the
  application list and the number of change events stay the same; every new call of
  \<open>refreshApplications\<close> or \<open>getApplications(true)\<close> awaits that rejected promise, and
  every suspended call throws when it resumes.
\<close>

theorem refresh_failure_sticks:
  "(quiet p \<longrightarrow> inFlight (length (promises p)) (refreshApplications p))
 \<and> (inFlight k p \<longrightarrow> inFlight k (refreshApplications p))
 \<and> (inFlight k p \<longrightarrow>
      stuck k (onRefresh p k None) \<and> listed (onRefresh p k None) = listed p
      \<and> changed (onRefresh p k None) = changed p)
 \<and> (stuck k p \<longrightarrow>
      stuck k (foldl step p as) \<and> currentRefresh (foldl step p as) = Some k
      \<and> promises (foldl step p as) = promises p \<and> listed (foldl step p as) = listed p
      \<and> changed (foldl step p as) = changed p)
 \<and> (stuck k p \<longrightarrow>
      awaiting (refreshApplications p) = awaiting p @ [k]
      \<and> awaiting (getApplications p True) = awaiting p @ [k]
      \<and> (\<forall>i < length (awaiting p). snd (resume p i) = Threw))"
proof -
  have q: "quiet p \<longrightarrow> inFlight (length (promises p)) (refreshApplications p)"
    using refreshApplications_quiet[of p] by blast
  have j: "inFlight k p \<longrightarrow> inFlight k (refreshApplications p)"
    using refreshApplications_inFlight[of k p] by blast
  have a: "inFlight k p \<longrightarrow>
      stuck k (onRefresh p k None) \<and> listed (onRefresh p k None) = listed p
      \<and> changed (onRefresh p k None) = changed p"
    using onRefresh_rejects[of k p] by blast
  have b: "stuck k p \<longrightarrow>
      stuck k (foldl step p as) \<and> currentRefresh (foldl step p as) = Some k
      \<and> promises (foldl step p as) = promises p \<and> listed (foldl step p as) = listed p
      \<and> changed (foldl step p as) = changed p"
    using run_stuck[of k p as] by blast
  have c: "stuck k p \<longrightarrow>
      awaiting (refreshApplications p) = awaiting p @ [k]
      \<and> awaiting (getApplications p True) = awaiting p @ [k]
      \<and> (\<forall>i < length (awaiting p). snd (resume p i) = Threw)"
    by (simp add: getApplications_def refreshApplications_stuck resume_stuck)
  show ?thesis using q j a b c by blast
qed

theorem refresh_failure_sticks_witness:
  "quiet newProvider
 \<and> inFlight 0 (step newProvider Tick)
 \<and> inFlight 0 (foldl step newProvider [Tick, Tick])
 \<and> stuck 0 (foldl step newProvider [Tick, ListFailed 0])
 \<and> listed (foldl step newProvider [Tick, ListFailed 0]) = None
 \<and> foldl step newProvider
      [Tick, ListFailed 0, Tick, GetApplications True, Resume 0, Listed 0 [], Tick, Resume 1]
    = \<lparr>listed = None, currentRefresh = Some 0, promises = [Rejected], awaiting = [0, 0], changed = 0\<rparr>
 \<and> promises (foldl step (foldl step newProvider [Tick, ListFailed 0])
      [Tick, GetApplications True, Resume 0, Listed 0 [], Tick, Resume 1]) = [Rejected]
 \<and> snd (resume (foldl step newProvider [Tick, ListFailed 0]) 0) = Threw"
proof -
  let ?p1 = "step newProvider Tick"
  let ?p2 = "foldl step newProvider [Tick, ListFailed 0]"
  let ?as = "[Tick, GetApplications True, Resume 0, Listed 0 [], Tick, Resume 1]"
  have q: "quiet newProvider" by (rule quiet_new)
  have len: "length (promises newProvider) = 0" by (simp add: newProvider_def)
  have p1: "?p1 = \<lparr>listed = None, currentRefresh = Some 0, promises = [Pending], awaiting = [0], changed = 0\<rparr>"
    by (simp add: newProvider_def refreshApplications_def)
  have "inFlight (length (promises newProvider)) (refreshApplications newProvider)"
    using refresh_failure_sticks[of newProvider 0 "[]", THEN conjunct1, THEN mp, OF q] .
  then have f: "inFlight 0 ?p1"
    unfolding len by simp
  have "inFlight 0 (refreshApplications ?p1)"
    using refresh_failure_sticks[of ?p1 0 "[]", THEN conjunct2, THEN conjunct1, THEN mp, OF f] .
  then have f2: "inFlight 0 (foldl step newProvider [Tick, Tick])"
    by simp
  have p2: "?p2 = onRefresh ?p1 0 None" by simp
  have p2v: "?p2 = \<lparr>listed = None, currentRefresh = Some 0, promises = [Rejected], awaiting = [0], changed = 0\<rparr>"
    unfolding p2 p1 by (simp add: onRefresh_def)
  note A = refresh_failure_sticks[of ?p1 0 "[]", THEN conjunct2, THEN conjunct2, THEN conjunct1, THEN mp, OF f]
  have s: "stuck 0 ?p2" using A unfolding p2 by blast
  have l: "listed ?p2 = None" using A unfolding p2 p1 by simp
  note B = refresh_failure_sticks[of ?p2 0 ?as, THEN conjunct2, THEN conjunct2, THEN conjunct2,
      THEN conjunct1, THEN mp, OF s]
  have pr0: "promises (foldl step ?p2 ?as) = promises ?p2"
    using B by blast
  have pr1: "promises ?p2 = [Rejected]"
    unfolding p2v by simp
  have pr: "promises (foldl step ?p2 ?as) = [Rejected]"
    using pr0 pr1 by (rule trans)
  note C = refresh_failure_sticks[of ?p2 0 "[]", THEN conjunct2, THEN conjunct2, THEN conjunct2,
      THEN conjunct2, THEN mp, OF s]
  have w: "0 < length (awaiting ?p2)"
    unfolding p2v by simp
  have th: "snd (resume ?p2 0) = Threw"
    using C[THEN conjunct2, THEN conjunct2, THEN spec, THEN mp, OF w] .
  have run: "foldl step newProvider
      [Tick, ListFailed 0, Tick, GetApplications True, Resume 0, Listed 0 [], Tick, Resume 1]
    = \<lparr>listed = None, currentRefresh = Some 0, promises = [Rejected], awaiting = [0, 0], changed = 0\<rparr>"
    by (simp add: newProvider_def refreshApplications_def getApplications_def onRefresh_def resume_def)
  from q f f2 s l run pr th show ?thesis by blast
qed

end
